theory Spec2Isabelle
  imports Main "HOL-Library.Sublist"
begin

section \<open>Python strings\<close>

text \<open>
  A Python \<open>str\<close> is a sequence of Unicode code points. A code point is modelled as a
  natural number and a string as the list of its code points, so \<open>length\<close> counts what
  Python's \<open>len\<close> counts. The literals of the source are written \<open>u ''PMID-''\<close>.
\<close>

type_synonym pystr = "nat list"

definition u :: "string \<Rightarrow> pystr" where
  "u s = map of_char s"

text \<open>
  \<open>str.isspace\<close> on one code point, which is also the set \<open>str.strip()\<close> removes and
  the class \<open>\s\<close> of a \<open>str\<close> pattern: U+0009..U+000D, U+001C..U+0020, U+0085, U+00A0,
  U+1680, U+2000..U+200A, U+2028, U+2029, U+202F, U+205F, U+3000.
\<close>

definition isspace :: "nat \<Rightarrow> bool" where
  "isspace c \<longleftrightarrow> (9 \<le> c \<and> c \<le> 13) \<or> (28 \<le> c \<and> c \<le> 32) \<or> c = 133 \<or> c = 160
     \<or> c = 5760 \<or> (8192 \<le> c \<and> c \<le> 8202) \<or> c = 8232 \<or> c = 8233 \<or> c = 8239
     \<or> c = 8287 \<or> c = 12288"

text \<open>\<open>s.strip()\<close>: leading and trailing whitespace removed.\<close>

definition strip :: "pystr \<Rightarrow> pystr" where
  "strip s = rev (dropWhile isspace (rev (dropWhile isspace s)))"

text \<open>\<open>s.startswith(p)\<close>.\<close>

definition startswith :: "pystr \<Rightarrow> pystr \<Rightarrow> bool" where
  "startswith s p \<longleftrightarrow> take (length p) s = p"

text \<open>
  \<open>s.split('-', 1)\<close>: at most one split, at the first dash (code point 45). The result
  has two elements when \<open>s\<close> holds a dash and one element otherwise.
\<close>

definition split_dash :: "pystr \<Rightarrow> pystr list" where
  "split_dash s = (case dropWhile (\<lambda>c. c \<noteq> 45) s of
      [] \<Rightarrow> [s]
    | _ # r \<Rightarrow> [takeWhile (\<lambda>c. c \<noteq> 45) s, r])"

text \<open>Indexing a list raises \<open>IndexError\<close> out of range; the error is a value.\<close>

datatype error = IndexError

definition item :: "'a list \<Rightarrow> nat \<Rightarrow> error + 'a" where
  "item xs n = (if n < length xs then Inr (xs ! n) else Inl IndexError)"

text \<open>The expression \<open>line.split('-', 1)[1].strip()\<close> of the three tag branches.\<close>

definition after_dash :: "pystr \<Rightarrow> error + pystr" where
  "after_dash line = (case item (split_dash line) 1 of
      Inl e \<Rightarrow> Inl e
    | Inr v \<Rightarrow> Inr (strip v))"

text \<open>
  \<open>s.splitlines()\<close>: lines end at \<open>\n\<close>, \<open>\r\<close>, \<open>\r\n\<close>, \<open>\v\<close>, \<open>\f\<close>, U+001C, U+001D,
  U+001E, U+0085, U+2028 and U+2029; the terminators are dropped and a terminator at
  the very end opens no further line. \<open>cur\<close> is the line being read, reversed.
\<close>

definition linebreak :: "nat \<Rightarrow> bool" where
  "linebreak c \<longleftrightarrow> (10 \<le> c \<and> c \<le> 13) \<or> (28 \<le> c \<and> c \<le> 30) \<or> c = 133
     \<or> c = 8232 \<or> c = 8233"

fun splitlines_from :: "pystr \<Rightarrow> pystr \<Rightarrow> pystr list" where
  "splitlines_from cur [] = (if cur = [] then [] else [rev cur])"
| "splitlines_from cur (c # cs) =
     (if c = 13 then
        (case cs of
           [] \<Rightarrow> [rev cur]
         | d # ds \<Rightarrow> if d = 10 then rev cur # splitlines_from [] ds
                    else rev cur # splitlines_from [] (d # ds))
      else if linebreak c then rev cur # splitlines_from [] cs
      else splitlines_from (c # cur) cs)"

definition splitlines :: "pystr \<Rightarrow> pystr list" where
  "splitlines s = splitlines_from [] s"

text \<open>\<open>' '.join(xs)\<close>.\<close>

fun join_space :: "pystr list \<Rightarrow> pystr" where
  "join_space [] = []"
| "join_space [x] = x"
| "join_space (x # y # ys) = x @ 32 # join_space (y # ys)"

section \<open>The email pattern\<close>

text \<open>
  \<open>EMAIL_RX = [A-Za-z0-9._%+\-]+@[A-Za-z0-9.\-]+\.[A-Za-z]{2,}\<close>. The pattern has no
  flag, so its classes are the ASCII ones.
\<close>

definition alpha :: "nat \<Rightarrow> bool" where
  "alpha c \<longleftrightarrow> (65 \<le> c \<and> c \<le> 90) \<or> (97 \<le> c \<and> c \<le> 122)"

definition alnum :: "nat \<Rightarrow> bool" where
  "alnum c \<longleftrightarrow> alpha c \<or> (48 \<le> c \<and> c \<le> 57)"

text \<open>\<open>[A-Za-z0-9._%+\-]\<close>: the dot is 46, underscore 95, percent 37, plus 43, dash 45.\<close>

definition local_char :: "nat \<Rightarrow> bool" where
  "local_char c \<longleftrightarrow> alnum c \<or> c = 46 \<or> c = 95 \<or> c = 37 \<or> c = 43 \<or> c = 45"

text \<open>\<open>[A-Za-z0-9.\-]\<close>.\<close>

definition domain_char :: "nat \<Rightarrow> bool" where
  "domain_char c \<longleftrightarrow> alnum c \<or> c = 46 \<or> c = 45"

text \<open>
  A greedy repetition followed by the rest of the pattern: the engine first takes the
  longest run and gives characters back one at a time, down to one character, until
  the rest matches. \<open>try_down f n\<close> tries the lengths \<open>n, n - 1, ..., 1\<close> in that
  order.
\<close>

primrec try_down :: "(nat \<Rightarrow> nat option) \<Rightarrow> nat \<Rightarrow> nat option" where
  "try_down f 0 = None"
| "try_down f (Suc n) = (case f (Suc n) of Some r \<Rightarrow> Some r | None \<Rightarrow> try_down f n)"

text \<open>
  Each matcher returns the length of the match of its part of the pattern at the head
  of the text, or \<open>None\<close>. \<open>[A-Za-z]{2,}\<close> ends the pattern, so its longest run is
  the match.
\<close>

definition match_tld :: "pystr \<Rightarrow> nat option" where
  "match_tld s = (let n = length (takeWhile alpha s) in if 2 \<le> n then Some n else None)"

definition match_dot_tld :: "pystr \<Rightarrow> nat option" where
  "match_dot_tld s = (case s of
      [] \<Rightarrow> None
    | c # cs \<Rightarrow> if c = 46 then map_option Suc (match_tld cs) else None)"

definition match_domain :: "pystr \<Rightarrow> nat option" where
  "match_domain s =
     try_down (\<lambda>n. map_option (\<lambda>k. n + k) (match_dot_tld (drop n s)))
       (length (takeWhile domain_char s))"

definition match_at_domain :: "pystr \<Rightarrow> nat option" where
  "match_at_domain s = (case s of
      [] \<Rightarrow> None
    | c # cs \<Rightarrow> if c = 64 then map_option Suc (match_domain cs) else None)"

definition match_email :: "pystr \<Rightarrow> nat option" where
  "match_email s =
     try_down (\<lambda>n. map_option (\<lambda>k. n + k) (match_at_domain (drop n s)))
       (length (takeWhile local_char s))"

text \<open>
  \<open>EMAIL_RX.search(s)\<close> tries the start positions from left to right and returns the
  first match; the result is \<open>m.group(0)\<close>, or \<open>None\<close> when there is no match.
\<close>

fun EMAIL_RX_search :: "pystr \<Rightarrow> pystr option" where
  "EMAIL_RX_search [] = None"
| "EMAIL_RX_search (c # cs) = (case match_email (c # cs) of
      Some n \<Rightarrow> Some (take n (c # cs))
    | None \<Rightarrow> EMAIL_RX_search cs)"

section \<open>The parser\<close>

record row =
  PMID :: "pystr option"
  Title :: "pystr option"
  Author :: pystr
  Email :: pystr

text \<open>
  \<open>re.split(r'\n(?=PMID-\s)', s)\<close>: every newline (code point 10) that is followed by
  \<open>PMID-\<close> and one whitespace character ends a chunk and is removed; the lookahead
  consumes nothing. The result is never empty: a text without such a newline is one
  chunk.
\<close>

definition record_mark :: "pystr \<Rightarrow> bool" where
  "record_mark s \<longleftrightarrow> take 5 s = u ''PMID-'' \<and> (case drop 5 s of [] \<Rightarrow> False | w # _ \<Rightarrow> isspace w)"

fun re_split :: "pystr \<Rightarrow> pystr list" where
  "re_split [] = [ [] ]"
| "re_split (c # cs) =
     (if c = 10 \<and> record_mark cs then [] # re_split cs
      else (case re_split cs of
              [] \<Rightarrow> [ [c] ]
            | chunk # chunks \<Rightarrow> (c # chunk) # chunks))"

text \<open>The first loop of a chunk: \<open>pmid\<close> and \<open>title\<close> start as \<open>None\<close>.\<close>

fun header_loop :: "pystr list \<Rightarrow> pystr option \<Rightarrow> pystr option
    \<Rightarrow> error + (pystr option \<times> pystr option)" where
  "header_loop [] pmid title = Inr (pmid, title)"
| "header_loop (line # rest) pmid title =
     (if startswith line (u ''PMID-'') then
        (case after_dash line of
           Inl e \<Rightarrow> Inl e
         | Inr v \<Rightarrow> header_loop rest (Some v) title)
      else if startswith line (u ''TI  -'') then
        (case after_dash line of
           Inl e \<Rightarrow> Inl e
         | Inr v \<Rightarrow> header_loop rest pmid (Some v))
      else header_loop rest pmid title)"

text \<open>The innermost loop, over \<open>k\<close>: the lines after an \<open>AD\<close> line that start with a space.\<close>

function cont_loop :: "pystr list \<Rightarrow> nat \<Rightarrow> pystr list \<Rightarrow> pystr list" where
  "cont_loop lines k aff_lines =
     (if k < length lines \<and> startswith (lines ! k) (u '' '')
      then cont_loop lines (k + 1) (aff_lines @ [strip (lines ! k)])
      else aff_lines)"
  by pat_completeness auto
termination
  by (relation "measure (\<lambda>(lines, k, aff_lines). length lines - k)") auto

declare cont_loop.simps [simp del]

text \<open>
  The loop over \<open>j\<close>, from the line after a \<open>FAU\<close> line; the result is the value of
  \<open>email\<close> when the loop is left (the empty string when nothing was found).
\<close>

function aff_loop :: "pystr list \<Rightarrow> nat \<Rightarrow> error + pystr" where
  "aff_loop lines j =
     (if j < length lines then
        (if startswith (lines ! j) (u ''AD  -'') then
           (case after_dash (lines ! j) of
              Inl e \<Rightarrow> Inl e
            | Inr a \<Rightarrow>
                (let aff_lines = cont_loop lines (j + 1) [a];
                     aff_text = join_space aff_lines
                 in case EMAIL_RX_search aff_text of
                      Some m \<Rightarrow> Inr m
                    | None \<Rightarrow> Inr []))
         else if startswith (lines ! j) (u ''FAU -'') then Inr []
         else aff_loop lines (j + 1))
      else Inr [])"
  by pat_completeness auto
termination
  by (relation "measure (\<lambda>(lines, j). length lines - j)") auto

declare aff_loop.simps [simp del]

text \<open>The loop over \<open>i\<close>; \<open>records\<close> is the list the rows are appended to.\<close>

function author_loop :: "pystr list \<Rightarrow> pystr option \<Rightarrow> pystr option \<Rightarrow> nat \<Rightarrow> row list
    \<Rightarrow> error + row list" where
  "author_loop lines pmid title i records =
     (if i < length lines then
        (if startswith (lines ! i) (u ''FAU -'') then
           (case after_dash (lines ! i) of
              Inl e \<Rightarrow> Inl e
            | Inr author \<Rightarrow>
                (case aff_loop lines (i + 1) of
                   Inl e \<Rightarrow> Inl e
                 | Inr email \<Rightarrow>
                     author_loop lines pmid title (i + 1)
                       (if email \<noteq> [] then
                          records @ [\<lparr>PMID = pmid, Title = title, Author = author,
                                      Email = email\<rparr>]
                        else records)))
         else author_loop lines pmid title (i + 1) records)
      else Inr records)"
  by pat_completeness auto
termination
  by (relation "measure (\<lambda>(lines, pmid, title, i, records). length lines - i)") auto

declare author_loop.simps [simp del]

text \<open>The loop over the chunks.\<close>

fun chunk_loop :: "pystr list \<Rightarrow> row list \<Rightarrow> error + row list" where
  "chunk_loop [] records = Inr records"
| "chunk_loop (chunk # chunks) records =
     (let lines = splitlines chunk in
      case header_loop lines None None of
        Inl e \<Rightarrow> Inl e
      | Inr (pmid, title) \<Rightarrow>
          (case author_loop lines pmid title 0 records of
             Inl e \<Rightarrow> Inl e
           | Inr records' \<Rightarrow> chunk_loop chunks records'))"

definition parse_medline_text :: "pystr \<Rightarrow> error + row list" where
  "parse_medline_text text = chunk_loop (re_split (strip text)) []"

section \<open>The application\<close>

text \<open>
  \<open>DataFrame.drop_duplicates(subset=['PMID', 'Author', 'Email'])\<close> with the default
  \<open>keep='first'\<close>: a row is dropped when an earlier row has the same values in the
  three columns; \<open>seen\<close> holds the keys of the rows read so far. \<open>reset_index\<close>
  renumbers the rows and changes neither the rows nor their order.
\<close>

type_synonym key = "pystr option \<times> pystr \<times> pystr"

definition subset_key :: "row \<Rightarrow> key" where
  "subset_key r = (PMID r, Author r, Email r)"

fun drop_duplicates_from :: "key list \<Rightarrow> row list \<Rightarrow> row list" where
  "drop_duplicates_from seen [] = []"
| "drop_duplicates_from seen (r # rs) =
     (if subset_key r \<in> set seen then drop_duplicates_from seen rs
      else r # drop_duplicates_from (subset_key r # seen) rs)"

definition drop_duplicates :: "row list \<Rightarrow> row list" where
  "drop_duplicates rs = drop_duplicates_from [] rs"

text \<open>
  The script below the parser. Its input is the list of the decoded texts of the
  uploaded files, in upload order. It shows nothing when no file is uploaded, the
  table \<open>df\<close> when \<open>all_records\<close> is not empty, and a warning otherwise.
\<close>

datatype page = Nothing | Success "row list" | Warning

fun extend_loop :: "pystr list \<Rightarrow> row list \<Rightarrow> error + row list" where
  "extend_loop [] all_records = Inr all_records"
| "extend_loop (raw_text # uploaded) all_records =
     (case parse_medline_text raw_text of
        Inl e \<Rightarrow> Inl e
      | Inr records \<Rightarrow> extend_loop uploaded (all_records @ records))"

definition app :: "pystr list \<Rightarrow> error + page" where
  "app uploaded_files =
     (if uploaded_files \<noteq> [] then
        (case extend_loop uploaded_files [] of
           Inl e \<Rightarrow> Inl e
         | Inr all_records \<Rightarrow>
             if all_records \<noteq> [] then Inr (Success (drop_duplicates all_records))
             else Inr Warning)
      else Inr Nothing)"

section \<open>What the loops compute\<close>

text \<open>
  The functions of this section are not part of the source. They state, without loops,
  what the loops of the parser compute, and the lemmas below prove that they do.

  \<open>last_tag tag lines\<close>: the text after the tag of the last line that starts with
  \<open>tag\<close>, or \<open>None\<close> when no line does.
\<close>

definition last_tag :: "pystr \<Rightarrow> pystr list \<Rightarrow> pystr option" where
  "last_tag tag lines = (case filter (\<lambda>l. startswith l tag) lines of
      [] \<Rightarrow> None
    | x # xs \<Rightarrow> Some (strip (drop 5 (last (x # xs)))))"

text \<open>
  The affiliation block at line \<open>j\<close>: the text after the tag of that line, followed by
  the lines directly after it that start with a space, each stripped, joined by spaces.
\<close>

definition affiliation_text :: "pystr list \<Rightarrow> nat \<Rightarrow> pystr" where
  "affiliation_text lines j =
     join_space (strip (drop 5 (lines ! j))
       # map strip (takeWhile (\<lambda>l. startswith l (u '' '')) (drop (j + 1) lines)))"

text \<open>
  The rows line \<open>k\<close> of a chunk adds: one row when the line is a \<open>FAU\<close> line and the
  scan after it found an email, none otherwise.
\<close>

definition entry_rows :: "pystr option \<Rightarrow> pystr option \<Rightarrow> pystr list \<Rightarrow> nat \<Rightarrow> row list" where
  "entry_rows pmid title lines k =
     (if startswith (lines ! k) (u ''FAU -'') then
        (case aff_loop lines (k + 1) of
           Inl e \<Rightarrow> []
         | Inr email \<Rightarrow>
             if email \<noteq> [] then
               [\<lparr>PMID = pmid, Title = title, Author = strip (drop 5 (lines ! k)),
                 Email = email\<rparr>]
             else [])
      else [])"

text \<open>The rows of one chunk and of one text.\<close>

definition chunk_rows :: "pystr \<Rightarrow> row list" where
  "chunk_rows chunk =
     (let lines = splitlines chunk in
      concat (map (entry_rows (last_tag (u ''PMID-'') lines) (last_tag (u ''TI  -'') lines) lines)
        [0..<length lines]))"

definition text_rows :: "pystr \<Rightarrow> row list" where
  "text_rows text = concat (map chunk_rows (re_split (strip text)))"

section \<open>What the split and the search are measured against\<close>

text \<open>
  These definitions are not part of the source either. \<open>join_newline\<close> is
  \<open>'\n'.join\<close>, the inverse the split is compared with.
\<close>

fun join_newline :: "pystr list \<Rightarrow> pystr" where
  "join_newline [] = []"
| "join_newline [x] = x"
| "join_newline (x # y # ys) = x @ 10 # join_newline (y # ys)"

text \<open>
  The positions of the newlines of a text that are directly followed by \<open>PMID-\<close> and
  one whitespace character.
\<close>

definition mark_positions :: "pystr \<Rightarrow> nat list" where
  "mark_positions s = filter (\<lambda>i. s ! i = 10 \<and> record_mark (drop (Suc i) s)) [0..<length s]"

text \<open>
  The shape of an email in the words of the specification: a local part of one or more
  characters from letters, digits, \<open>.\<close>, \<open>_\<close>, \<open>%\<close>, \<open>+\<close>, \<open>-\<close>; the at sign (64); a
  domain of one or more characters from letters, digits, \<open>.\<close>, \<open>-\<close>; a dot (46); and
  a top-level segment of at least two letters.
\<close>

definition email_shape :: "pystr \<Rightarrow> bool" where
  "email_shape m \<longleftrightarrow>
     (\<exists>l d t. m = l @ 64 # d @ 46 # t
        \<and> l \<noteq> [] \<and> (\<forall>c\<in>set l. local_char c)
        \<and> d \<noteq> [] \<and> (\<forall>c\<in>set d. domain_char c)
        \<and> 2 \<le> length t \<and> (\<forall>c\<in>set t. alpha c))"

section \<open>Evaluation\<close>

text \<open>The equations that evaluate the parser on a concrete text.\<close>

lemmas eval_defs =
  parse_medline_text_def u_def strip_def isspace_def record_mark_def splitlines_def
  linebreak_def startswith_def after_dash_def split_dash_def item_def aff_loop.simps
  cont_loop.simps author_loop.simps match_email_def match_at_domain_def match_domain_def
  match_dot_tld_def match_tld_def local_char_def domain_char_def alnum_def alpha_def

section \<open>The tag lines and the split at the dash\<close>

lemma startswith_decomp: "startswith s p \<Longrightarrow> s = p @ drop (length p) s"
  unfolding startswith_def by (metis append_take_drop_id)

lemma split_dash_prefix:
  assumes "45 \<notin> set a"
  shows "split_dash (a @ 45 # b) = [a, b]"
proof -
  have 1: "dropWhile (\<lambda>c. c \<noteq> 45) (a @ 45 # b) = 45 # b"
    using assms by (auto simp: dropWhile_append3)
  have 2: "takeWhile (\<lambda>c. c \<noteq> 45) (a @ 45 # b) = a"
    using assms by (auto simp: takeWhile_tail)
  show ?thesis by (simp add: split_dash_def 1 2)
qed

lemma split_dash_tag:
  assumes "startswith line (a @ [45])" "45 \<notin> set a" "n = Suc (length a)"
  shows "split_dash line = [a, drop n line]"
proof -
  define rest where "rest = drop (Suc (length a)) line"
  have eq: "a @ 45 # rest = line"
    unfolding rest_def using startswith_decomp[OF assms(1), symmetric] by simp
  have "split_dash (a @ 45 # rest) = [a, rest]"
    by (rule split_dash_prefix[OF assms(2)])
  then have "split_dash line = [a, rest]"
    by (simp only: eq)
  then show ?thesis
    using assms(3) by (simp add: rest_def)
qed

lemma after_dash_tag:
  assumes "startswith line (a @ [45])" "45 \<notin> set a" "n = Suc (length a)"
  shows "after_dash line = Inr (strip (drop n line))"
  by (simp add: after_dash_def item_def split_dash_tag[OF assms])

lemma after_dash_PMID:
  assumes "startswith line (u ''PMID-'')"
  shows "after_dash line = Inr (strip (drop 5 line))"
proof (rule after_dash_tag[where a = "u ''PMID''"])
  show "startswith line (u ''PMID'' @ [45])" using assms by (simp add: u_def)
  show "45 \<notin> set (u ''PMID'')" by (simp add: u_def)
  show "5 = Suc (length (u ''PMID''))" by (simp add: u_def)
qed

lemma after_dash_TI:
  assumes "startswith line (u ''TI  -'')"
  shows "after_dash line = Inr (strip (drop 5 line))"
proof (rule after_dash_tag[where a = "u ''TI  ''"])
  show "startswith line (u ''TI  '' @ [45])" using assms by (simp add: u_def)
  show "45 \<notin> set (u ''TI  '')" by (simp add: u_def)
  show "5 = Suc (length (u ''TI  ''))" by (simp add: u_def)
qed

lemma after_dash_FAU:
  assumes "startswith line (u ''FAU -'')"
  shows "after_dash line = Inr (strip (drop 5 line))"
proof (rule after_dash_tag[where a = "u ''FAU ''"])
  show "startswith line (u ''FAU '' @ [45])" using assms by (simp add: u_def)
  show "45 \<notin> set (u ''FAU '')" by (simp add: u_def)
  show "5 = Suc (length (u ''FAU ''))" by (simp add: u_def)
qed

lemma after_dash_AD:
  assumes "startswith line (u ''AD  -'')"
  shows "after_dash line = Inr (strip (drop 5 line))"
proof (rule after_dash_tag[where a = "u ''AD  ''"])
  show "startswith line (u ''AD  '' @ [45])" using assms by (simp add: u_def)
  show "45 \<notin> set (u ''AD  '')" by (simp add: u_def)
  show "5 = Suc (length (u ''AD  ''))" by (simp add: u_def)
qed

section \<open>No loop of the parser raises\<close>

lemma header_loop_total: "\<exists>p t. header_loop lines pmid title = Inr (p, t)"
  by (induction lines arbitrary: pmid title) (auto simp: after_dash_PMID after_dash_TI)

lemma aff_loop_total: "\<exists>email. aff_loop lines j = Inr email"
proof (induction lines j rule: aff_loop.induct)
  case (1 lines j)
  show ?case
  proof (cases "j < length lines")
    case False
    then show ?thesis by (simp add: aff_loop.simps)
  next
    case True
    show ?thesis
    proof (cases "startswith (lines ! j) (u ''AD  -'')")
      case ad: True
      then show ?thesis using True
        by (subst aff_loop.simps) (simp add: after_dash_AD Let_def split: option.split)
    next
      case nad: False
      show ?thesis
      proof (cases "startswith (lines ! j) (u ''FAU -'')")
        case True
        then show ?thesis using nad \<open>j < length lines\<close> by (subst aff_loop.simps) simp
      next
        case False
        then show ?thesis using nad \<open>j < length lines\<close> 1 by (subst aff_loop.simps) simp
      qed
    qed
  qed
qed

lemma author_loop_total: "\<exists>rows. author_loop lines pmid title i records = Inr rows"
proof (induction lines pmid title i records rule: author_loop.induct)
  case (1 lines pmid title i records)
  show ?case
  proof (cases "i < length lines")
    case False
    then show ?thesis by (simp add: author_loop.simps)
  next
    case True
    show ?thesis
    proof (cases "startswith (lines ! i) (u ''FAU -'')")
      case False
      then show ?thesis using True 1(2) by (subst author_loop.simps) simp
    next
      case fau: True
      obtain email where e: "aff_loop lines (i + 1) = Inr email"
        using aff_loop_total by blast
      have a: "after_dash (lines ! i) = Inr (strip (drop 5 (lines ! i)))"
        using fau by (rule after_dash_FAU)
      from 1(1)[OF True fau a e] show ?thesis
        using True fau a e by (subst author_loop.simps) simp
    qed
  qed
qed

lemma chunk_loop_total: "\<exists>rows. chunk_loop chunks records = Inr rows"
proof (induction chunks arbitrary: records)
  case Nil
  show ?case by simp
next
  case (Cons chunk chunks)
  obtain p t where h: "header_loop (splitlines chunk) None None = Inr (p, t)"
    using header_loop_total by blast
  obtain rs where a: "author_loop (splitlines chunk) p t 0 records = Inr rs"
    using author_loop_total by blast
  show ?case using Cons[of rs] by (simp add: h a)
qed

lemma parse_total: "\<exists>rows. parse_medline_text text = Inr rows"
  unfolding parse_medline_text_def by (rule chunk_loop_total)

text \<open>
  C7: the parser returns a list of rows for every text and never raises. On a line
  that passed one of the four prefix tests, \<open>split('-', 1)\<close> has a second element,
  the text after the five characters of the tag, so the index \<open>[1]\<close> is in range; a
  tag with nothing after the dash gives the empty string.
\<close>

theorem parse_medline_text_total:
  "(\<exists>rows. parse_medline_text text = Inr rows) \<and>
   (startswith line (u ''PMID-'') \<or> startswith line (u ''TI  -'')
      \<or> startswith line (u ''FAU -'') \<or> startswith line (u ''AD  -'')
    \<longrightarrow> after_dash line = Inr (strip (drop 5 line)))"
  using parse_total after_dash_PMID after_dash_TI after_dash_FAU after_dash_AD by blast

theorem parse_medline_text_total_witness:
  "parse_medline_text (u ''PMID-\<newline>TI  -\<newline>FAU -\<newline>AD  -'') = Inr []
   \<and> startswith (u ''FAU -'') (u ''FAU -'')
   \<and> after_dash (u ''FAU -'') = Inr []"
proof -
  have p: "parse_medline_text (u ''PMID-\<newline>TI  -\<newline>FAU -\<newline>AD  -'') = Inr []"
    by (simp add: eval_defs)
  have s: "startswith (u ''FAU -'') (u ''FAU -'')"
    by (simp add: startswith_def)
  have "after_dash (u ''FAU -'') = Inr (strip (drop 5 (u ''FAU -'')))"
    using parse_medline_text_total[of "[]" "u ''FAU -''"] s by blast
  moreover have "strip (drop 5 (u ''FAU -'')) = []"
    by (simp add: u_def strip_def)
  ultimately show ?thesis
    using p s by simp
qed

section \<open>The loops over the lines of a chunk\<close>

lemma cont_loop_takeWhile:
  "cont_loop lines k aff_lines =
     aff_lines @ map strip (takeWhile (\<lambda>l. startswith l (u '' '')) (drop k lines))"
proof (induction lines k aff_lines rule: cont_loop.induct)
  case (1 lines k aff_lines)
  show ?case
  proof (cases "k < length lines \<and> startswith (lines ! k) (u '' '')")
    case True
    then have d: "drop k lines = lines ! k # drop (k + 1) lines"
      by (simp add: Cons_nth_drop_Suc)
    show ?thesis
      using True 1[OF True] by (subst cont_loop.simps) (simp add: d)
  next
    case False
    show ?thesis
    proof (cases "k < length lines")
      case True
      then have d: "drop k lines = lines ! k # drop (k + 1) lines"
        by (simp add: Cons_nth_drop_Suc)
      show ?thesis using False True by (subst cont_loop.simps) (simp add: d)
    next
      case False
      then show ?thesis by (subst cont_loop.simps) simp
    qed
  qed
qed

lemma aff_loop_end: "length lines \<le> j \<Longrightarrow> aff_loop lines j = Inr []"
  by (subst aff_loop.simps) simp

lemma aff_loop_FAU:
  "j < length lines \<Longrightarrow> \<not> startswith (lines ! j) (u ''AD  -'')
    \<Longrightarrow> startswith (lines ! j) (u ''FAU -'') \<Longrightarrow> aff_loop lines j = Inr []"
  by (subst aff_loop.simps) simp

lemma aff_loop_AD:
  assumes "j < length lines" "startswith (lines ! j) (u ''AD  -'')"
  shows "aff_loop lines j =
     Inr (case EMAIL_RX_search (affiliation_text lines j) of Some m \<Rightarrow> m | None \<Rightarrow> [])"
  using assms
  by (subst aff_loop.simps)
     (simp add: after_dash_AD cont_loop_takeWhile affiliation_text_def split: option.split)

lemma aff_loop_step:
  "j < length lines \<Longrightarrow> \<not> startswith (lines ! j) (u ''AD  -'')
    \<Longrightarrow> \<not> startswith (lines ! j) (u ''FAU -'') \<Longrightarrow> aff_loop lines j = aff_loop lines (j + 1)"
  by (subst aff_loop.simps) simp

lemma aff_loop_skip:
  assumes "j \<le> m" "m \<le> length lines"
    and "\<forall>t. j \<le> t \<and> t < m \<longrightarrow>
           \<not> startswith (lines ! t) (u ''AD  -'') \<and> \<not> startswith (lines ! t) (u ''FAU -'')"
  shows "aff_loop lines j = aff_loop lines m"
  using assms
proof (induction "m - j" arbitrary: j)
  case 0
  then show ?case by simp
next
  case (Suc d)
  then have lt: "j < m" by simp
  have "aff_loop lines j = aff_loop lines (j + 1)"
    using lt Suc.prems by (intro aff_loop_step) auto
  also have "\<dots> = aff_loop lines m"
    using Suc.hyps(2) lt Suc.prems by (intro Suc.hyps(1)) auto
  finally show ?case .
qed

lemma author_loop_rows:
  "author_loop lines pmid title i records =
     Inr (records @ concat (map (entry_rows pmid title lines) [i..<length lines]))"
proof (induction lines pmid title i records rule: author_loop.induct)
  case (1 lines pmid title i records)
  show ?case
  proof (cases "i < length lines")
    case False
    then show ?thesis by (subst author_loop.simps) simp
  next
    case True
    then have up: "[i..<length lines] = i # [i + 1..<length lines]"
      by (simp add: upt_conv_Cons)
    show ?thesis
    proof (cases "startswith (lines ! i) (u ''FAU -'')")
      case False
      then have er: "entry_rows pmid title lines i = []"
        by (simp add: entry_rows_def)
      show ?thesis
        using False True 1(2) by (subst author_loop.simps) (simp add: up er)
    next
      case fau: True
      obtain email where e: "aff_loop lines (i + 1) = Inr email"
        using aff_loop_total by blast
      have a: "after_dash (lines ! i) = Inr (strip (drop 5 (lines ! i)))"
        using fau by (rule after_dash_FAU)
      have er: "entry_rows pmid title lines i =
          (if email \<noteq> [] then
             [\<lparr>PMID = pmid, Title = title, Author = strip (drop 5 (lines ! i)),
               Email = email\<rparr>]
           else [])"
        using fau e by (simp add: entry_rows_def)
      have e': "aff_loop lines (Suc i) = Inr email"
        using e by simp
      show ?thesis
        using 1(1)[OF True fau a e] True fau
        by (subst author_loop.simps) (simp add: up er a e')
    qed
  qed
qed

section \<open>The rows of a text\<close>

lemma PMID_not_TI: "startswith l (u ''PMID-'') \<Longrightarrow> \<not> startswith l (u ''TI  -'')"
  by (simp add: startswith_def u_def)

lemma last_tag_Cons:
  "last_tag tag (l # ls) = (case last_tag tag ls of
      Some v \<Rightarrow> Some v
    | None \<Rightarrow> if startswith l tag then Some (strip (drop 5 l)) else None)"
  by (cases "filter (\<lambda>l. startswith l tag) ls") (simp_all add: last_tag_def)

lemma header_loop_last:
  "header_loop lines pmid title =
     Inr (case last_tag (u ''PMID-'') lines of None \<Rightarrow> pmid | Some v \<Rightarrow> Some v,
          case last_tag (u ''TI  -'') lines of None \<Rightarrow> title | Some v \<Rightarrow> Some v)"
proof (induction lines arbitrary: pmid title)
  case Nil
  show ?case by (simp add: last_tag_def)
next
  case (Cons l ls)
  show ?case
  proof (cases "startswith l (u ''PMID-'')")
    case True
    then show ?thesis
      using PMID_not_TI[OF True]
      by (simp add: Cons after_dash_PMID last_tag_Cons split: option.split)
  next
    case False
    then show ?thesis
      by (simp add: Cons after_dash_TI last_tag_Cons split: option.split)
  qed
qed

lemma header_loop_None:
  "header_loop lines None None = Inr (last_tag (u ''PMID-'') lines, last_tag (u ''TI  -'') lines)"
  by (simp add: header_loop_last split: option.split)

lemma chunk_loop_rows:
  "chunk_loop chunks records = Inr (records @ concat (map chunk_rows chunks))"
proof (induction chunks arbitrary: records)
  case Nil
  show ?case by simp
next
  case (Cons chunk chunks)
  show ?case
    by (simp add: header_loop_None author_loop_rows Cons chunk_rows_def Let_def)
qed

lemma parse_rows: "parse_medline_text text = Inr (text_rows text)"
  by (simp add: parse_medline_text_def chunk_loop_rows text_rows_def)

lemma extend_loop_rows:
  "extend_loop uploaded all_records = Inr (all_records @ concat (map text_rows uploaded))"
  by (induction uploaded arbitrary: all_records) (simp_all add: parse_rows)

lemma app_rows:
  "app uploaded_files =
     (if uploaded_files = [] then Inr Nothing
      else if concat (map text_rows uploaded_files) = [] then Inr Warning
      else Inr (Success (drop_duplicates (concat (map text_rows uploaded_files)))))"
  by (simp add: app_def extend_loop_rows)

lemma entry_rows_fields:
  assumes "r \<in> set (entry_rows pmid title lines k)"
  shows "PMID r = pmid \<and> Title r = title \<and> Email r \<noteq> []
        \<and> startswith (lines ! k) (u ''FAU -'') \<and> aff_loop lines (k + 1) = Inr (Email r)
        \<and> Author r = strip (drop 5 (lines ! k))"
proof -
  obtain email where e: "aff_loop lines (k + 1) = Inr email"
    using aff_loop_total by blast
  show ?thesis
  proof (cases "startswith (lines ! k) (u ''FAU -'') \<and> email \<noteq> []")
    case True
    then have "entry_rows pmid title lines k =
        [\<lparr>PMID = pmid, Title = title, Author = strip (drop 5 (lines ! k)), Email = email\<rparr>]"
      using e by (simp add: entry_rows_def)
    with assms
    have "r = \<lparr>PMID = pmid, Title = title, Author = strip (drop 5 (lines ! k)), Email = email\<rparr>"
      by simp
    then show ?thesis
      using True e by simp
  next
    case False
    then have "entry_rows pmid title lines k = []"
      using e by (auto simp: entry_rows_def)
    with assms show ?thesis
      by simp
  qed
qed

lemma entry_rows_empty:
  "entry_rows pmid title lines k = []
    \<longleftrightarrow> (startswith (lines ! k) (u ''FAU -'') \<longrightarrow> aff_loop lines (k + 1) = Inr [])"
proof -
  obtain email where e: "aff_loop lines (k + 1) = Inr email"
    using aff_loop_total by blast
  show ?thesis
    using e by (simp add: entry_rows_def)
qed

lemma chunk_rows_email: "r \<in> set (chunk_rows chunk) \<Longrightarrow> Email r \<noteq> []"
  by (auto simp: chunk_rows_def Let_def dest: entry_rows_fields)

lemma text_rows_email: "r \<in> set (text_rows text) \<Longrightarrow> Email r \<noteq> []"
  by (auto simp: text_rows_def dest: chunk_rows_email)

section \<open>Dropping duplicates\<close>

lemma ddf_keys:
  "subset_key ` set (drop_duplicates_from seen rs) = subset_key ` set rs - set seen"
  by (induction rs arbitrary: seen) auto

lemma ddf_distinct: "distinct (map subset_key (drop_duplicates_from seen rs))"
proof (induction rs arbitrary: seen)
  case Nil
  show ?case by simp
next
  case (Cons r rs)
  have "subset_key r \<notin> subset_key ` set (drop_duplicates_from (subset_key r # seen) rs)"
    by (simp add: ddf_keys)
  then show ?case by (simp add: Cons)
qed

lemma ddf_subseq: "subseq (drop_duplicates_from seen rs) rs"
  by (induction rs arbitrary: seen) auto

lemma ddf_first:
  "r \<in> set (drop_duplicates_from seen rs)
    \<Longrightarrow> find (\<lambda>x. subset_key x = subset_key r) rs = Some r"
proof (induction rs arbitrary: seen)
  case Nil
  then show ?case by simp
next
  case (Cons r0 rs)
  show ?case
  proof (cases "subset_key r0 \<in> set seen")
    case True
    with Cons.prems have in_rest: "r \<in> set (drop_duplicates_from seen rs)" by simp
    then have "subset_key r \<in> subset_key ` set rs - set seen"
      using ddf_keys[of seen rs] by blast
    then have "subset_key r0 \<noteq> subset_key r" using True by auto
    then show ?thesis using Cons.IH[OF in_rest] by simp
  next
    case False
    show ?thesis
    proof (cases "r = r0")
      case True
      then show ?thesis by simp
    next
      case neq: False
      with Cons.prems False
      have in_rest: "r \<in> set (drop_duplicates_from (subset_key r0 # seen) rs)" by simp
      then have "subset_key r \<in> subset_key ` set rs - set (subset_key r0 # seen)"
        using ddf_keys[of "subset_key r0 # seen" rs] by blast
      then have "subset_key r0 \<noteq> subset_key r" by auto
      then show ?thesis using Cons.IH[OF in_rest] by simp
    qed
  qed
qed

section \<open>The claims on the header and the affiliation scan\<close>

lemma author_loop_no_email:
  assumes "i < length lines" "startswith (lines ! i) (u ''FAU -'')"
    "aff_loop lines (i + 1) = Inr []"
  shows "author_loop lines pmid title i records = author_loop lines pmid title (i + 1) records"
proof -
  have a: "after_dash (lines ! i) = Inr (strip (drop 5 (lines ! i)))"
    using assms(2) by (rule after_dash_FAU)
  have e: "aff_loop lines (Suc i) = Inr []"
    using assms(3) by simp
  show ?thesis
    using assms(1,2) by (subst author_loop.simps) (simp add: a e)
qed

lemma aff_loop_first_stop:
  assumes "j \<le> m" "m \<le> length lines"
    and "\<forall>t. j \<le> t \<and> t < m \<longrightarrow>
           \<not> startswith (lines ! t) (u ''AD  -'') \<and> \<not> startswith (lines ! t) (u ''FAU -'')"
    and "m < length lines \<longrightarrow>
           startswith (lines ! m) (u ''AD  -'') \<or> startswith (lines ! m) (u ''FAU -'')"
  shows "aff_loop lines j =
     Inr (if m < length lines \<and> startswith (lines ! m) (u ''AD  -'')
          then (case EMAIL_RX_search (affiliation_text lines m) of Some e \<Rightarrow> e | None \<Rightarrow> [])
          else [])"
proof -
  have skip: "aff_loop lines j = aff_loop lines m"
    using assms(1-3) by (rule aff_loop_skip)
  show ?thesis
  proof (cases "m < length lines")
    case False
    then show ?thesis using skip by (simp add: aff_loop_end)
  next
    case True
    show ?thesis
    proof (cases "startswith (lines ! m) (u ''AD  -'')")
      case True
      then show ?thesis using skip \<open>m < length lines\<close> by (simp add: aff_loop_AD)
    next
      case False
      then have "startswith (lines ! m) (u ''FAU -'')" using assms(4) True by blast
      then show ?thesis using skip False True by (simp add: aff_loop_FAU)
    qed
  qed
qed

text \<open>
  C1, as stated, fails: in a chunk with two \<open>PMID-\<close> lines and two \<open>TI\<close> lines the
  row carries the identifier and the title of the last of them, not of the first.
\<close>

theorem header_first_wins_counterexample:
  "parse_medline_text
     (u ''PMID- 1\<newline>PMID-2\<newline>TI  - First\<newline>TI  - Second\<newline>FAU - Doe A\<newline>AD  - adoe@uni.edu'')
   = Inr [\<lparr>PMID = Some (u ''2''), Title = Some (u ''Second''), Author = u ''Doe A'',
           Email = u ''adoe@uni.edu''\<rparr>]"
  by (simp add: eval_defs)

text \<open>
  C1, amended: the first loop leaves in \<open>pmid\<close> and \<open>title\<close> the values of the last
  \<open>PMID-\<close> line and of the last \<open>TI\<close> line of the chunk (\<open>None\<close> when there is no such
  line), and every row the chunk adds to \<open>records\<close> carries these two values.
\<close>

theorem header_last_wins:
  "header_loop lines None None
     = Inr (last_tag (u ''PMID-'') lines, last_tag (u ''TI  -'') lines)
   \<and> (\<exists>new. chunk_loop [chunk] records = Inr (records @ new)
        \<and> (\<forall>r\<in>set new. PMID r = last_tag (u ''PMID-'') (splitlines chunk)
                        \<and> Title r = last_tag (u ''TI  -'') (splitlines chunk)))"
proof -
  have "chunk_loop [chunk] records = Inr (records @ chunk_rows chunk)"
    by (simp add: chunk_loop_rows)
  moreover have "\<forall>r\<in>set (chunk_rows chunk).
      PMID r = last_tag (u ''PMID-'') (splitlines chunk)
      \<and> Title r = last_tag (u ''TI  -'') (splitlines chunk)"
    by (auto simp: chunk_rows_def Let_def dest: entry_rows_fields)
  ultimately show ?thesis
    using header_loop_None by blast
qed

theorem header_last_wins_witness:
  "chunk_loop [u ''PMID- 1\<newline>PMID-2\<newline>TI  - First\<newline>TI  - Second\<newline>FAU - Doe A\<newline>AD  - adoe@uni.edu''] []
     = Inr [\<lparr>PMID = Some (u ''2''), Title = Some (u ''Second''), Author = u ''Doe A'',
             Email = u ''adoe@uni.edu''\<rparr>]
   \<and> last_tag (u ''PMID-'')
        (splitlines (u ''PMID- 1\<newline>PMID-2\<newline>TI  - First\<newline>TI  - Second\<newline>FAU - Doe A\<newline>AD  - adoe@uni.edu''))
      = Some (u ''2'')
   \<and> last_tag (u ''TI  -'')
        (splitlines (u ''PMID- 1\<newline>PMID-2\<newline>TI  - First\<newline>TI  - Second\<newline>FAU - Doe A\<newline>AD  - adoe@uni.edu''))
      = Some (u ''Second'')"
proof -
  define chunk where
    "chunk = u ''PMID- 1\<newline>PMID-2\<newline>TI  - First\<newline>TI  - Second\<newline>FAU - Doe A\<newline>AD  - adoe@uni.edu''"
  define r0 where
    "r0 = \<lparr>PMID = Some (u ''2''), Title = Some (u ''Second''), Author = u ''Doe A'',
           Email = u ''adoe@uni.edu''\<rparr>"
  have ev: "chunk_loop [chunk] [] = Inr [r0]"
    unfolding chunk_def r0_def by (simp add: eval_defs)
  obtain new where n: "chunk_loop [chunk] [] = Inr ([] @ new)"
    and f: "\<forall>r\<in>set new. PMID r = last_tag (u ''PMID-'') (splitlines chunk)
                        \<and> Title r = last_tag (u ''TI  -'') (splitlines chunk)"
    using header_last_wins[of "[]" chunk "[]"] by blast
  from ev n have "new = [r0]" by simp
  with f have "PMID r0 = last_tag (u ''PMID-'') (splitlines chunk)"
    and "Title r0 = last_tag (u ''TI  -'') (splitlines chunk)" by simp_all
  then have "last_tag (u ''PMID-'') (splitlines chunk) = Some (u ''2'')"
    and "last_tag (u ''TI  -'') (splitlines chunk) = Some (u ''Second'')"
    by (simp_all add: r0_def)
  with ev show ?thesis
    unfolding chunk_def r0_def by simp
qed

text \<open>
  C2, as stated, fails: a line that is neither an \<open>AD\<close> line nor a \<open>FAU\<close> line does not
  stop the scan. Here the \<open>LA\<close> line stands between the author and the \<open>AD\<close> line, and
  the email of that \<open>AD\<close> line is still the author's.
\<close>

theorem other_line_stops_scan_counterexample:
  "parse_medline_text (u ''PMID- 1\<newline>FAU - Doe A\<newline>LA  - eng\<newline>AD  - adoe@uni.edu'')
   = Inr [\<lparr>PMID = Some (u ''1''), Title = None, Author = u ''Doe A'',
           Email = u ''adoe@uni.edu''\<rparr>]"
  by (simp add: eval_defs)

text \<open>
  C2, amended: the scan from line \<open>j\<close> passes over every line that starts with neither
  \<open>AD  -\<close> nor \<open>FAU -\<close>. It ends at the first line \<open>m\<close> that starts with one of them,
  or at the end of the chunk. At an \<open>AD\<close> line the email is the one found in the
  affiliation block of that line (empty when there is none); at a \<open>FAU\<close> line and at
  the end of the chunk the email stays empty.
\<close>

theorem aff_loop_scan:
  assumes "j \<le> m" and "m \<le> length lines"
    and "\<forall>t. j \<le> t \<and> t < m \<longrightarrow>
           \<not> startswith (lines ! t) (u ''AD  -'') \<and> \<not> startswith (lines ! t) (u ''FAU -'')"
    and "m < length lines \<longrightarrow>
           startswith (lines ! m) (u ''AD  -'') \<or> startswith (lines ! m) (u ''FAU -'')"
  shows "aff_loop lines j =
     Inr (if m < length lines \<and> startswith (lines ! m) (u ''AD  -'')
          then (case EMAIL_RX_search (affiliation_text lines m) of Some e \<Rightarrow> e | None \<Rightarrow> [])
          else [])"
  using assms by (rule aff_loop_first_stop)

theorem aff_loop_scan_witness:
  "aff_loop [u ''FAU - Doe A'', u ''LA  - eng'', u ''AD  - Dept of Y,'',
             u ''      adoe@uni.edu'', u ''FAU - Roe B''] 1
   = Inr (u ''adoe@uni.edu'')
   \<and> affiliation_text [u ''FAU - Doe A'', u ''LA  - eng'', u ''AD  - Dept of Y,'',
             u ''      adoe@uni.edu'', u ''FAU - Roe B''] 2
     = u ''Dept of Y, adoe@uni.edu''"
proof -
  define L where "L = [u ''FAU - Doe A'', u ''LA  - eng'', u ''AD  - Dept of Y,'',
             u ''      adoe@uni.edu'', u ''FAU - Roe B'']"
  have h1: "(1::nat) \<le> 2" by simp
  have h2: "2 \<le> length L" by (simp add: L_def)
  have h3: "\<forall>t. 1 \<le> t \<and> t < 2 \<longrightarrow>
           \<not> startswith (L ! t) (u ''AD  -'') \<and> \<not> startswith (L ! t) (u ''FAU -'')"
  proof (intro allI impI)
    fix t :: nat
    assume "1 \<le> t \<and> t < 2"
    then have "t = 1" by simp
    then show "\<not> startswith (L ! t) (u ''AD  -'') \<and> \<not> startswith (L ! t) (u ''FAU -'')"
      by (simp add: L_def startswith_def u_def)
  qed
  have h4: "2 < length L \<longrightarrow>
           startswith (L ! 2) (u ''AD  -'') \<or> startswith (L ! 2) (u ''FAU -'')"
    by (simp add: L_def startswith_def u_def)
  have t: "affiliation_text L 2 = u ''Dept of Y, adoe@uni.edu''"
    by (simp add: L_def affiliation_text_def startswith_def u_def strip_def isspace_def)
  have s: "EMAIL_RX_search (u ''Dept of Y, adoe@uni.edu'') = Some (u ''adoe@uni.edu'')"
    by (simp add: eval_defs)
  have c: "2 < length L \<and> startswith (L ! 2) (u ''AD  -'')"
    by (simp add: L_def startswith_def u_def)
  have "aff_loop L 1 = Inr (u ''adoe@uni.edu'')"
    using aff_loop_scan[OF h1 h2 h3 h4] c by (simp add: t s)
  then show ?thesis
    using t unfolding L_def by simp
qed

text \<open>
  C5, as stated, fails: a line that begins with a tab (code point 9, a whitespace
  character) is not read as a continuation. The email on the tab-indented line
  after the \<open>AD\<close> line is not found, so the author has no row.
\<close>

theorem tab_continuation_counterexample:
  "isspace 9 \<and>
   parse_medline_text
     (u ''PMID- 1\<newline>FAU - Doe A\<newline>AD  - Dept of Y,\<newline>'' @ 9 # u ''adoe@uni.edu'')
   = Inr []"
  by (simp add: eval_defs)

text \<open>
  C5, amended: the lines appended to an affiliation block are the lines directly
  after the \<open>AD\<close> line, up to the first line that does not begin with the space
  character U+0020; each is appended stripped. A line beginning with any other
  whitespace character ends the block.
\<close>

theorem cont_loop_space:
  "cont_loop lines k aff_lines =
     aff_lines @ map strip (takeWhile (\<lambda>l. startswith l (u '' '')) (drop k lines))
   \<and> (startswith l (u '' '') \<longleftrightarrow> (\<exists>t. l = 32 # t))"
proof -
  have "startswith l (u '' '') \<longleftrightarrow> (\<exists>t. l = 32 # t)"
    by (cases l) (simp_all add: startswith_def u_def)
  then show ?thesis
    using cont_loop_takeWhile by blast
qed

text \<open>
  C10: when the first \<open>AD\<close> line after an author holds no email in its block, the scan
  ends there with an empty email and the author adds no row, whatever follows.
\<close>

theorem first_block_only:
  assumes "i < m" and "m < length lines"
    and "startswith (lines ! i) (u ''FAU -'')"
    and "\<forall>t. i < t \<and> t < m \<longrightarrow>
           \<not> startswith (lines ! t) (u ''AD  -'') \<and> \<not> startswith (lines ! t) (u ''FAU -'')"
    and "startswith (lines ! m) (u ''AD  -'')"
    and "EMAIL_RX_search (affiliation_text lines m) = None"
  shows "aff_loop lines (i + 1) = Inr []
     \<and> author_loop lines pmid title i records = author_loop lines pmid title (i + 1) records"
proof -
  have "aff_loop lines (i + 1) = aff_loop lines m"
    using assms(1,2,4) by (intro aff_loop_skip) auto
  also have "\<dots> = Inr []"
    using assms(2,5,6) by (simp add: aff_loop_AD)
  finally have e: "aff_loop lines (i + 1) = Inr []" .
  have "i < length lines" using assms(1,2) by simp
  then show ?thesis
    using e assms(3) author_loop_no_email by blast
qed

theorem first_block_only_witness:
  "EMAIL_RX_search (affiliation_text
      [u ''FAU - Doe A'', u ''AD  - Dept of Y'', u ''AD  - adoe@uni.edu''] 1) = None
   \<and> aff_loop [u ''FAU - Doe A'', u ''AD  - Dept of Y'', u ''AD  - adoe@uni.edu''] (0 + 1)
       = Inr []
   \<and> author_loop [u ''FAU - Doe A'', u ''AD  - Dept of Y'', u ''AD  - adoe@uni.edu'']
        None None 0 []
     = author_loop [u ''FAU - Doe A'', u ''AD  - Dept of Y'', u ''AD  - adoe@uni.edu'']
        None None (0 + 1) []
   \<and> parse_medline_text (u ''FAU - Doe A\<newline>AD  - Dept of Y\<newline>AD  - adoe@uni.edu'') = Inr []"
proof -
  define L where "L = [u ''FAU - Doe A'', u ''AD  - Dept of Y'', u ''AD  - adoe@uni.edu'']"
  have h1: "(0::nat) < 1" by simp
  have h2: "1 < length L" by (simp add: L_def)
  have h3: "startswith (L ! 0) (u ''FAU -'')" by (simp add: L_def startswith_def u_def)
  have h4: "\<forall>t. 0 < t \<and> t < 1 \<longrightarrow>
           \<not> startswith (L ! t) (u ''AD  -'') \<and> \<not> startswith (L ! t) (u ''FAU -'')"
    by simp
  have h5: "startswith (L ! 1) (u ''AD  -'')" by (simp add: L_def startswith_def u_def)
  have t: "affiliation_text L 1 = u ''Dept of Y''"
    by (simp add: L_def affiliation_text_def startswith_def u_def strip_def isspace_def)
  have h6: "EMAIL_RX_search (affiliation_text L 1) = None"
    unfolding t by (simp add: eval_defs)
  have p: "parse_medline_text (u ''FAU - Doe A\<newline>AD  - Dept of Y\<newline>AD  - adoe@uni.edu'') = Inr []"
    by (simp add: eval_defs)
  show ?thesis
    using first_block_only[OF h1 h2 h3 h4 h5 h6, of None None "[]"] h6 p
    unfolding L_def by simp
qed

section \<open>The claims on the rows and the table\<close>

lemma ddf_subset: "set (drop_duplicates_from seen rs) \<subseteq> set rs"
  by (induction rs arbitrary: seen) auto

lemma app_Success:
  assumes "app uploaded_files = Inr (Success df)"
  shows "df = drop_duplicates (concat (map text_rows uploaded_files))"
  using assms by (simp add: app_rows split: if_splits)

lemma chunk_rows_empty:
  "chunk_rows chunk = [] \<longleftrightarrow>
     (\<forall>k<length (splitlines chunk). startswith (splitlines chunk ! k) (u ''FAU -'')
        \<longrightarrow> aff_loop (splitlines chunk) (k + 1) = Inr [])"
  by (auto simp: chunk_rows_def Let_def entry_rows_empty)

lemma text_rows_empty:
  "text_rows text = [] \<longleftrightarrow>
     (\<forall>chunk\<in>set (re_split (strip text)).
        \<forall>k<length (splitlines chunk). startswith (splitlines chunk ! k) (u ''FAU -'')
          \<longrightarrow> aff_loop (splitlines chunk) (k + 1) = Inr [])"
  by (simp add: text_rows_def chunk_rows_empty)

text \<open>
  C4: every row the parser returns, and every row of the table the application shows,
  has a non-empty email. An author line whose scan ends with the empty email adds no
  row, and the scan ends with the empty email when it meets no \<open>AD\<close> line before the
  next \<open>FAU\<close> line or the end of the chunk, or when the affiliation block of the first
  \<open>AD\<close> line holds no match of the pattern.
\<close>

theorem email_never_empty:
  "(parse_medline_text text = Inr rows \<longrightarrow> (\<forall>r\<in>set rows. Email r \<noteq> []))
   \<and> (app uploaded_files = Inr (Success df) \<longrightarrow> (\<forall>r\<in>set df. Email r \<noteq> []))
   \<and> (i < length lines \<and> startswith (lines ! i) (u ''FAU -'')
        \<and> aff_loop lines (i + 1) = Inr []
      \<longrightarrow> author_loop lines pmid title i records
          = author_loop lines pmid title (i + 1) records)
   \<and> (j \<le> m \<and> m \<le> length lines
        \<and> (\<forall>t. j \<le> t \<and> t < m \<longrightarrow>
              \<not> startswith (lines ! t) (u ''AD  -'')
              \<and> \<not> startswith (lines ! t) (u ''FAU -''))
        \<and> (m = length lines
            \<or> (\<not> startswith (lines ! m) (u ''AD  -'') \<and> startswith (lines ! m) (u ''FAU -''))
            \<or> (startswith (lines ! m) (u ''AD  -'')
                \<and> EMAIL_RX_search (affiliation_text lines m) = None))
      \<longrightarrow> aff_loop lines j = Inr [])"
proof (intro conjI impI)
  assume "parse_medline_text text = Inr rows"
  then have "rows = text_rows text" by (simp add: parse_rows)
  then show "\<forall>r\<in>set rows. Email r \<noteq> []" using text_rows_email by blast
next
  assume "app uploaded_files = Inr (Success df)"
  then have "df = drop_duplicates (concat (map text_rows uploaded_files))"
    by (rule app_Success)
  then have "set df \<subseteq> set (concat (map text_rows uploaded_files))"
    unfolding drop_duplicates_def using ddf_subset by blast
  then show "\<forall>r\<in>set df. Email r \<noteq> []" using text_rows_email by fastforce
next
  assume "i < length lines \<and> startswith (lines ! i) (u ''FAU -'')
        \<and> aff_loop lines (i + 1) = Inr []"
  then show "author_loop lines pmid title i records
          = author_loop lines pmid title (i + 1) records"
    using author_loop_no_email by blast
next
  assume a: "j \<le> m \<and> m \<le> length lines
        \<and> (\<forall>t. j \<le> t \<and> t < m \<longrightarrow>
              \<not> startswith (lines ! t) (u ''AD  -'')
              \<and> \<not> startswith (lines ! t) (u ''FAU -''))
        \<and> (m = length lines
            \<or> (\<not> startswith (lines ! m) (u ''AD  -'') \<and> startswith (lines ! m) (u ''FAU -''))
            \<or> (startswith (lines ! m) (u ''AD  -'')
                \<and> EMAIL_RX_search (affiliation_text lines m) = None))"
  then have skip: "aff_loop lines j = aff_loop lines m"
    by (intro aff_loop_skip) auto
  show "aff_loop lines j = Inr []"
  proof (cases "m < length lines")
    case False
    then show ?thesis using skip by (simp add: aff_loop_end)
  next
    case True
    then have "(\<not> startswith (lines ! m) (u ''AD  -'') \<and> startswith (lines ! m) (u ''FAU -''))
            \<or> (startswith (lines ! m) (u ''AD  -'')
                \<and> EMAIL_RX_search (affiliation_text lines m) = None)"
      using a by auto
    then show ?thesis
      using skip True by (auto simp: aff_loop_FAU aff_loop_AD)
  qed
qed

theorem email_never_empty_witness:
  "parse_medline_text (u ''PMID- 1\<newline>FAU - Doe A\<newline>AD  - adoe@uni.edu\<newline>FAU - Roe B\<newline>AD  - Dept of Z'')
     = Inr [\<lparr>PMID = Some (u ''1''), Title = None, Author = u ''Doe A'',
             Email = u ''adoe@uni.edu''\<rparr>]
   \<and> app [u ''PMID- 1\<newline>FAU - Doe A\<newline>AD  - adoe@uni.edu\<newline>FAU - Roe B\<newline>AD  - Dept of Z'']
     = Inr (Success [\<lparr>PMID = Some (u ''1''), Title = None, Author = u ''Doe A'',
             Email = u ''adoe@uni.edu''\<rparr>])
   \<and> Email \<lparr>PMID = Some (u ''1''), Title = None, Author = u ''Doe A'',
             Email = u ''adoe@uni.edu''\<rparr> \<noteq> []
   \<and> aff_loop [u ''FAU - Roe B'', u ''AD  - Dept of Z''] (0 + 1) = Inr []
   \<and> author_loop [u ''FAU - Roe B'', u ''AD  - Dept of Z''] None None 0 []
     = author_loop [u ''FAU - Roe B'', u ''AD  - Dept of Z''] None None (0 + 1) []"
proof -
  define t0 where
    "t0 = u ''PMID- 1\<newline>FAU - Doe A\<newline>AD  - adoe@uni.edu\<newline>FAU - Roe B\<newline>AD  - Dept of Z''"
  define r0 where
    "r0 = \<lparr>PMID = Some (u ''1''), Title = None, Author = u ''Doe A'',
           Email = u ''adoe@uni.edu''\<rparr>"
  define L where "L = [u ''FAU - Roe B'', u ''AD  - Dept of Z'']"
  have p: "parse_medline_text t0 = Inr [r0]"
    unfolding t0_def r0_def by (simp add: eval_defs)
  have a: "app [t0] = Inr (Success [r0])"
    by (simp add: app_def p drop_duplicates_def)
  have t: "affiliation_text L 1 = u ''Dept of Z''"
    by (simp add: L_def affiliation_text_def startswith_def u_def strip_def isspace_def)
  have s: "EMAIL_RX_search (affiliation_text L 1) = None"
    unfolding t by (simp add: eval_defs)
  have h4: "(1::nat) \<le> 1 \<and> 1 \<le> length L
        \<and> (\<forall>t. 1 \<le> t \<and> t < 1 \<longrightarrow>
              \<not> startswith (L ! t) (u ''AD  -'') \<and> \<not> startswith (L ! t) (u ''FAU -''))
        \<and> (1 = length L
            \<or> (\<not> startswith (L ! 1) (u ''AD  -'') \<and> startswith (L ! 1) (u ''FAU -''))
            \<or> (startswith (L ! 1) (u ''AD  -'')
                \<and> EMAIL_RX_search (affiliation_text L 1) = None))"
    using s by (simp add: L_def startswith_def u_def)
  note inst = email_never_empty[of t0 "[r0]" "[t0]" "[r0]" 0 L None None "[]" 1 1]
  have e: "aff_loop L 1 = Inr []"
    using inst h4 by blast
  have h3: "0 < length L \<and> startswith (L ! 0) (u ''FAU -'') \<and> aff_loop L (0 + 1) = Inr []"
    using e by (simp add: L_def startswith_def u_def)
  have st: "author_loop L None None 0 [] = author_loop L None None (0 + 1) []"
    using inst h3 by blast
  have ne: "Email r0 \<noteq> []"
    using inst p by simp
  show ?thesis
    using p a ne e st unfolding t0_def r0_def L_def by simp
qed

text \<open>
  C9: the empty text gives no row and no error, and the application shows the warning,
  which is neither an error nor a table. In general a text gives no row exactly when
  no \<open>FAU\<close> line of any of its chunks has an email found by the scan after it, and
  uploaded files that all give no row lead to the warning.
\<close>

theorem empty_result_is_warning:
  "parse_medline_text (u '''') = Inr []
   \<and> app [u ''''] = Inr Warning
   \<and> (parse_medline_text text = Inr [] \<longleftrightarrow>
        (\<forall>chunk\<in>set (re_split (strip text)).
           \<forall>k<length (splitlines chunk). startswith (splitlines chunk ! k) (u ''FAU -'')
             \<longrightarrow> aff_loop (splitlines chunk) (k + 1) = Inr []))
   \<and> (uploaded_files \<noteq> [] \<and> (\<forall>t\<in>set uploaded_files. parse_medline_text t = Inr [])
        \<longrightarrow> app uploaded_files = Inr Warning)"
proof (intro conjI impI)
  show p: "parse_medline_text (u '''') = Inr []"
    by (simp add: eval_defs)
  show "app [u ''''] = Inr Warning"
    by (simp add: app_def p)
  show "parse_medline_text text = Inr [] \<longleftrightarrow>
        (\<forall>chunk\<in>set (re_split (strip text)).
           \<forall>k<length (splitlines chunk). startswith (splitlines chunk ! k) (u ''FAU -'')
             \<longrightarrow> aff_loop (splitlines chunk) (k + 1) = Inr [])"
    by (simp add: parse_rows text_rows_empty)
next
  assume a: "uploaded_files \<noteq> [] \<and> (\<forall>t\<in>set uploaded_files. parse_medline_text t = Inr [])"
  then have "\<forall>t\<in>set uploaded_files. text_rows t = []"
    by (simp add: parse_rows)
  then have "concat (map text_rows uploaded_files) = []"
    by simp
  then show "app uploaded_files = Inr Warning"
    using a by (simp add: app_rows)
qed

theorem empty_result_is_warning_witness:
  "parse_medline_text (u ''PMID- 1\<newline>FAU - Doe A\<newline>AD  - Dept of Y'') = Inr []
   \<and> aff_loop (splitlines (u ''PMID- 1\<newline>FAU - Doe A\<newline>AD  - Dept of Y'')) (1 + 1) = Inr []
   \<and> app [u ''PMID- 1\<newline>FAU - Doe A\<newline>AD  - Dept of Y'', []] = Inr Warning"
proof -
  define t0 where "t0 = u ''PMID- 1\<newline>FAU - Doe A\<newline>AD  - Dept of Y''"
  have p: "parse_medline_text t0 = Inr []"
    unfolding t0_def by (simp add: eval_defs)
  have p0: "parse_medline_text [] = Inr []"
    by (simp add: eval_defs)
  note inst = empty_result_is_warning[of t0 "[t0, []]"]
  have q: "\<forall>chunk\<in>set (re_split (strip t0)).
        \<forall>k<length (splitlines chunk). startswith (splitlines chunk ! k) (u ''FAU -'')
          \<longrightarrow> aff_loop (splitlines chunk) (k + 1) = Inr []"
    using inst p by blast
  have h: "[t0, []] \<noteq> [] \<and> (\<forall>t\<in>set [t0, []]. parse_medline_text t = Inr [])"
    using p p0 by simp
  have w: "app [t0, []] = Inr Warning"
    using inst h by blast
  have c: "re_split (strip t0) = [t0]"
    unfolding t0_def by (simp add: eval_defs)
  have l: "1 < length (splitlines t0) \<and> startswith (splitlines t0 ! 1) (u ''FAU -'')"
    unfolding t0_def by (simp add: eval_defs)
  have "aff_loop (splitlines t0) (1 + 1) = Inr []"
    using q l by (simp add: c)
  then show ?thesis
    using p w unfolding t0_def by simp
qed

text \<open>
  C3: the table the application shows has no two rows with the same identifier, author
  and email. It is the list of the rows of all files, in upload order and then in the
  order the parser found them, with every row dropped whose three values an earlier
  row has: the rows kept are a subsequence of that list, every triple of the list is
  still there, and each row kept is the first of the list with its triple.
\<close>

theorem drop_duplicates_keeps_first:
  "distinct (map subset_key (drop_duplicates rs))
   \<and> subseq (drop_duplicates rs) rs
   \<and> subset_key ` set (drop_duplicates rs) = subset_key ` set rs
   \<and> (\<forall>r\<in>set (drop_duplicates rs). find (\<lambda>x. subset_key x = subset_key r) rs = Some r)
   \<and> (app uploaded_files = Inr (Success df) \<longrightarrow>
        (\<exists>rss. list_all2 (\<lambda>text rows. parse_medline_text text = Inr rows) uploaded_files rss
           \<and> df = drop_duplicates (concat rss)))"
proof (intro conjI impI ballI)
  show "distinct (map subset_key (drop_duplicates rs))"
    by (simp add: drop_duplicates_def ddf_distinct)
  show "subseq (drop_duplicates rs) rs"
    by (simp add: drop_duplicates_def ddf_subseq)
  show "subset_key ` set (drop_duplicates rs) = subset_key ` set rs"
    by (simp add: drop_duplicates_def ddf_keys)
next
  fix r
  assume "r \<in> set (drop_duplicates rs)"
  then show "find (\<lambda>x. subset_key x = subset_key r) rs = Some r"
    unfolding drop_duplicates_def by (rule ddf_first)
next
  assume "app uploaded_files = Inr (Success df)"
  then have d: "df = drop_duplicates (concat (map text_rows uploaded_files))"
    by (rule app_Success)
  have "list_all2 (\<lambda>text rows. parse_medline_text text = Inr rows) uploaded_files
          (map text_rows uploaded_files)"
    by (simp add: list_all2_map2 list_all2_same parse_rows)
  then show "\<exists>rss. list_all2 (\<lambda>text rows. parse_medline_text text = Inr rows) uploaded_files rss
           \<and> df = drop_duplicates (concat rss)"
    using d by blast
qed

theorem drop_duplicates_keeps_first_witness:
  "app [u ''PMID- 1\<newline>FAU - Doe A\<newline>AD  - adoe@uni.edu\<newline>FAU - Doe A\<newline>AD  - other@uni.edu'',
        u ''PMID- 1\<newline>TI  - Again\<newline>FAU - Doe A\<newline>AD  - adoe@uni.edu'']
     = Inr (Success
         [\<lparr>PMID = Some (u ''1''), Title = None, Author = u ''Doe A'',
            Email = u ''adoe@uni.edu''\<rparr>,
          \<lparr>PMID = Some (u ''1''), Title = None, Author = u ''Doe A'',
            Email = u ''other@uni.edu''\<rparr>])
   \<and> (\<exists>rss. list_all2 (\<lambda>text rows. parse_medline_text text = Inr rows)
         [u ''PMID- 1\<newline>FAU - Doe A\<newline>AD  - adoe@uni.edu\<newline>FAU - Doe A\<newline>AD  - other@uni.edu'',
          u ''PMID- 1\<newline>TI  - Again\<newline>FAU - Doe A\<newline>AD  - adoe@uni.edu''] rss
        \<and> [\<lparr>PMID = Some (u ''1''), Title = None, Author = u ''Doe A'',
              Email = u ''adoe@uni.edu''\<rparr>,
            \<lparr>PMID = Some (u ''1''), Title = None, Author = u ''Doe A'',
              Email = u ''other@uni.edu''\<rparr>] = drop_duplicates (concat rss))"
proof -
  define t1 where
    "t1 = u ''PMID- 1\<newline>FAU - Doe A\<newline>AD  - adoe@uni.edu\<newline>FAU - Doe A\<newline>AD  - other@uni.edu''"
  define t2 where "t2 = u ''PMID- 1\<newline>TI  - Again\<newline>FAU - Doe A\<newline>AD  - adoe@uni.edu''"
  define r1 where
    "r1 = \<lparr>PMID = Some (u ''1''), Title = None, Author = u ''Doe A'',
           Email = u ''adoe@uni.edu''\<rparr>"
  define r2 where
    "r2 = \<lparr>PMID = Some (u ''1''), Title = None, Author = u ''Doe A'',
           Email = u ''other@uni.edu''\<rparr>"
  define r3 where
    "r3 = \<lparr>PMID = Some (u ''1''), Title = Some (u ''Again''), Author = u ''Doe A'',
           Email = u ''adoe@uni.edu''\<rparr>"
  have p1: "parse_medline_text t1 = Inr [r1, r2]"
    unfolding t1_def r1_def r2_def by (simp add: eval_defs)
  have p2: "parse_medline_text t2 = Inr [r3]"
    unfolding t2_def r3_def by (simp add: eval_defs)
  have k: "subset_key r3 = subset_key r1" "subset_key r2 \<noteq> subset_key r1"
    by (simp_all add: subset_key_def r1_def r2_def r3_def u_def)
  have a: "app [t1, t2] = Inr (Success [r1, r2])"
    using k by (simp add: app_def p1 p2 drop_duplicates_def)
  show ?thesis
    using drop_duplicates_keeps_first[of "[r1, r2]" "[t1, t2]" "[r1, r2]"] a
    unfolding t1_def t2_def r1_def r2_def by simp
qed

section \<open>The split into chunks\<close>

lemma re_split_not_Nil: "re_split s \<noteq> []"
  by (induction s) (auto split: list.split)

lemma join_newline_push: "join_newline ((c # r) # rs) = c # join_newline (r # rs)"
  by (cases rs) simp_all

lemma join_newline_empty_first: "rs \<noteq> [] \<Longrightarrow> join_newline ([] # rs) = 10 # join_newline rs"
  by (cases rs) simp_all

lemma join_newline_re_split: "join_newline (re_split s) = s"
proof (induction s)
  case Nil
  show ?case by simp
next
  case (Cons c cs)
  obtain r rs where rs: "re_split cs = r # rs"
    using re_split_not_Nil[of cs] by (cases "re_split cs") auto
  show ?case
  proof (cases "c = 10 \<and> record_mark cs")
    case True
    then show ?thesis
      using Cons re_split_not_Nil[of cs] by (simp add: join_newline_empty_first)
  next
    case False
    then have "re_split (c # cs) = (c # r) # rs"
      using rs by auto
    then show ?thesis
      using Cons rs by (simp add: join_newline_push)
  qed
qed

lemma mark_positions_Cons:
  "mark_positions (c # cs) =
     (if c = 10 \<and> record_mark cs then [0] else []) @ map Suc (mark_positions cs)"
proof -
  have up: "[0..<length (c # cs)] = 0 # map Suc [0..<length cs]"
    by (simp add: upt_conv_Cons map_Suc_upt del: upt_Suc)
  show ?thesis
    unfolding mark_positions_def up by (simp add: filter_map comp_def)
qed

lemma length_re_split: "length (re_split s) = Suc (length (mark_positions s))"
proof (induction s)
  case Nil
  show ?case by (simp add: mark_positions_def)
next
  case (Cons c cs)
  obtain r rs where rs: "re_split cs = r # rs"
    using re_split_not_Nil[of cs] by (cases "re_split cs") auto
  show ?case
    using Cons rs by (simp add: mark_positions_Cons)
qed

lemma re_split_tail_marks:
  "0 < k \<Longrightarrow> k < length (re_split s) \<Longrightarrow> record_mark (join_newline (drop k (re_split s)))"
proof (induction s arbitrary: k)
  case Nil
  then show ?case by simp
next
  case (Cons c cs)
  obtain r rs where rs: "re_split cs = r # rs"
    using re_split_not_Nil[of cs] by (cases "re_split cs") auto
  obtain k' where k: "k = Suc k'"
    using Cons.prems(1) by (cases k) auto
  show ?case
  proof (cases "c = 10 \<and> record_mark cs")
    case True
    then have sp: "re_split (c # cs) = [] # re_split cs" by simp
    show ?thesis
    proof (cases "k' = 0")
      case True
      then show ?thesis
        using sp k \<open>c = 10 \<and> record_mark cs\<close> by (simp add: join_newline_re_split)
    next
      case False
      then have "record_mark (join_newline (drop k' (re_split cs)))"
        using Cons.prems k sp by (intro Cons.IH) auto
      then show ?thesis using sp k by simp
    qed
  next
    case False
    then have sp: "re_split (c # cs) = (c # r) # rs"
      using rs by auto
    have d: "drop k (re_split (c # cs)) = drop k (re_split cs)"
      using sp rs k by simp
    have "record_mark (join_newline (drop k (re_split cs)))"
      using Cons.prems sp rs by (intro Cons.IH) auto
    then show ?thesis using d by simp
  qed
qed

lemma re_split_head: "\<exists>rest. s = hd (re_split s) @ rest"
  using join_newline_re_split[of s] re_split_not_Nil[of s]
  by (cases "re_split s" rule: join_newline.cases) auto

lemma join_newline_append:
  "xs \<noteq> [] \<Longrightarrow> ys \<noteq> [] \<Longrightarrow> join_newline (xs @ ys) = join_newline xs @ 10 # join_newline ys"
proof (induction xs rule: join_newline.induct)
  case 1
  then show ?case by simp
next
  case (2 x)
  then show ?case by (cases ys) simp_all
next
  case (3 x y zs)
  then show ?case by simp
qed

section \<open>The search for the email\<close>

lemma try_down_Some: "try_down f n = Some r \<Longrightarrow> \<exists>k. 0 < k \<and> k \<le> n \<and> f k = Some r"
proof (induction n)
  case 0
  then show ?case by simp
next
  case (Suc n)
  show ?case
  proof (cases "f (Suc n)")
    case None
    then have "try_down f n = Some r" using Suc.prems by simp
    then obtain k where "0 < k" "k \<le> n" "f k = Some r" using Suc.IH by blast
    then show ?thesis by (intro exI[of _ k]) simp
  next
    case (Some a)
    then have "a = r" using Suc.prems by simp
    then show ?thesis using Some by (intro exI[of _ "Suc n"]) simp
  qed
qed

lemma try_down_None: "try_down f n = None \<Longrightarrow> 0 < k \<Longrightarrow> k \<le> n \<Longrightarrow> f k = None"
proof (induction n)
  case 0
  then show ?case by simp
next
  case (Suc n)
  show ?case
  proof (cases "k = Suc n")
    case True
    then show ?thesis using Suc.prems(1) by (simp split: option.splits)
  next
    case False
    then have "k \<le> n" using Suc.prems(3) by simp
    moreover have "try_down f n = None" using Suc.prems(1) by (simp split: option.splits)
    ultimately show ?thesis using Suc.IH Suc.prems(2) by blast
  qed
qed

lemma take_within_takeWhile:
  assumes "n \<le> length (takeWhile P xs)"
  shows "\<forall>c\<in>set (take n xs). P c"
proof -
  have "take n xs = take n (take (length (takeWhile P xs)) xs)"
    using assms by (simp add: min_def)
  also have "\<dots> = take n (takeWhile P xs)"
    using takeWhile_eq_take[of P xs] by simp
  finally have "set (take n xs) \<subseteq> set (takeWhile P xs)"
    using set_take_subset[of n "takeWhile P xs"] by simp
  then show ?thesis
    using set_takeWhileD by fastforce
qed

lemma match_tld_sound:
  assumes "match_tld y = Some q"
  shows "q \<le> length y \<and> 2 \<le> length (take q y) \<and> (\<forall>c\<in>set (take q y). alpha c)"
proof -
  have q: "q = length (takeWhile alpha y)" and two: "2 \<le> q"
    using assms by (auto simp: match_tld_def Let_def split: if_splits)
  have le: "q \<le> length y"
    unfolding q by (rule length_takeWhile_le)
  have "\<forall>c\<in>set (take q y). alpha c"
    using take_within_takeWhile[of q alpha y] q by simp
  then show ?thesis
    using le two by simp
qed

lemma match_dot_tld_sound:
  assumes "match_dot_tld y = Some q"
  shows "q \<le> length y \<and> (\<exists>t. take q y = 46 # t \<and> 2 \<le> length t \<and> (\<forall>c\<in>set t. alpha c))"
proof -
  obtain ys where y: "y = 46 # ys"
    using assms by (cases y) (auto simp: match_dot_tld_def split: if_splits)
  then obtain q' where q: "q = Suc q'" and m: "match_tld ys = Some q'"
    using assms by (auto simp: match_dot_tld_def)
  from match_tld_sound[OF m]
  have "q' \<le> length ys" "2 \<le> length (take q' ys)" "\<forall>c\<in>set (take q' ys). alpha c"
    by simp_all
  then show ?thesis
    unfolding y q by (intro conjI exI[of _ "take q' ys"]) simp_all
qed

lemma match_domain_sound:
  assumes "match_domain x = Some k"
  shows "k \<le> length x \<and> (\<exists>d t. take k x = d @ 46 # t \<and> d \<noteq> [] \<and> (\<forall>c\<in>set d. domain_char c)
           \<and> 2 \<le> length t \<and> (\<forall>c\<in>set t. alpha c))"
proof -
  obtain p where p: "0 < p" "p \<le> length (takeWhile domain_char x)"
    and f: "map_option (\<lambda>q. p + q) (match_dot_tld (drop p x)) = Some k"
    using try_down_Some[OF assms[unfolded match_domain_def]] by blast
  then obtain q where q: "match_dot_tld (drop p x) = Some q" and k: "k = p + q"
    by auto
  from match_dot_tld_sound[OF q] obtain t where
    ql: "q \<le> length (drop p x)" and t: "take q (drop p x) = 46 # t"
    "2 \<le> length t" "\<forall>c\<in>set t. alpha c"
    by blast
  have pl: "p \<le> length x"
    using p(2) length_takeWhile_le[of domain_char x] by simp
  have d: "\<forall>c\<in>set (take p x). domain_char c"
    using p(2) by (rule take_within_takeWhile)
  have ne: "take p x \<noteq> []"
    using p(1) pl by auto
  have "take k x = take p x @ 46 # t"
    unfolding k using t(1) by (simp add: take_add)
  moreover have "k \<le> length x"
    unfolding k using ql pl by simp
  ultimately show ?thesis
    using d ne t(2,3) by blast
qed

lemma match_at_domain_sound:
  assumes "match_at_domain x = Some k"
  shows "k \<le> length x \<and> (\<exists>d t. take k x = 64 # d @ 46 # t \<and> d \<noteq> []
           \<and> (\<forall>c\<in>set d. domain_char c) \<and> 2 \<le> length t \<and> (\<forall>c\<in>set t. alpha c))"
proof -
  obtain xs where x: "x = 64 # xs"
    using assms by (cases x) (auto simp: match_at_domain_def split: if_splits)
  then obtain k' where k: "k = Suc k'" and m: "match_domain xs = Some k'"
    using assms by (auto simp: match_at_domain_def)
  from match_domain_sound[OF m] obtain d t where
    "k' \<le> length xs" "take k' xs = d @ 46 # t" "d \<noteq> []" "\<forall>c\<in>set d. domain_char c"
    "2 \<le> length t" "\<forall>c\<in>set t. alpha c"
    by blast
  then show ?thesis
    unfolding x k by (intro conjI exI[of _ d] exI[of _ t]) simp_all
qed

lemma match_email_sound:
  assumes "match_email s = Some n"
  shows "n \<le> length s \<and> email_shape (take n s)"
proof -
  obtain p where p: "0 < p" "p \<le> length (takeWhile local_char s)"
    and f: "map_option (\<lambda>q. p + q) (match_at_domain (drop p s)) = Some n"
    using try_down_Some[OF assms[unfolded match_email_def]] by blast
  then obtain q where q: "match_at_domain (drop p s) = Some q" and n: "n = p + q"
    by auto
  from match_at_domain_sound[OF q] obtain d t where
    ql: "q \<le> length (drop p s)" and t: "take q (drop p s) = 64 # d @ 46 # t"
    "d \<noteq> []" "\<forall>c\<in>set d. domain_char c" "2 \<le> length t" "\<forall>c\<in>set t. alpha c"
    by blast
  have pl: "p \<le> length s"
    using p(2) length_takeWhile_le[of local_char s] by simp
  have l: "\<forall>c\<in>set (take p s). local_char c"
    using p(2) by (rule take_within_takeWhile)
  have ne: "take p s \<noteq> []"
    using p(1) pl by auto
  have "take n s = take p s @ 64 # d @ 46 # t"
    unfolding n using t(1) by (simp add: take_add)
  then have "email_shape (take n s)"
    unfolding email_shape_def using l ne t(2-5) by blast
  moreover have "n \<le> length s"
    unfolding n using ql pl by simp
  ultimately show ?thesis by simp
qed

lemma try_down_top: "0 < n \<Longrightarrow> f n \<noteq> None \<Longrightarrow> try_down f n \<noteq> None"
  by (cases n) auto

lemma match_domain_complete:
  assumes "d \<noteq> []" "\<forall>c\<in>set d. domain_char c" "2 \<le> length t" "\<forall>c\<in>set t. alpha c"
  shows "match_domain (d @ 46 # t @ post) \<noteq> None"
proof
  assume none: "match_domain (d @ 46 # t @ post) = None"
  let ?x = "d @ 46 # t @ post"
  have tw: "takeWhile domain_char ?x = d @ takeWhile domain_char (46 # t @ post)"
    using assms(2) by (simp add: takeWhile_append2)
  have p: "0 < length d" "length d \<le> length (takeWhile domain_char ?x)"
    using assms(1) by (simp_all add: tw)
  have "map_option (\<lambda>q. length d + q) (match_dot_tld (drop (length d) ?x)) = None"
    using try_down_None[OF none[unfolded match_domain_def] p] .
  then have "match_tld (t @ post) = None"
    by (simp add: match_dot_tld_def)
  moreover have "takeWhile alpha (t @ post) = t @ takeWhile alpha post"
    using assms(4) by (simp add: takeWhile_append2)
  ultimately show False
    using assms(3) by (simp add: match_tld_def Let_def)
qed

lemma not_local_at: "\<not> local_char 64"
  by (simp add: local_char_def alnum_def alpha_def)

lemma match_email_complete:
  assumes "email_shape m"
  shows "match_email (m @ post) \<noteq> None"
proof -
  obtain l d t where m: "m = l @ 64 # d @ 46 # t"
    and l: "l \<noteq> []" "\<forall>c\<in>set l. local_char c"
    and d: "d \<noteq> []" "\<forall>c\<in>set d. domain_char c"
    and t: "2 \<le> length t" "\<forall>c\<in>set t. alpha c"
    using assms unfolding email_shape_def by blast
  have s: "m @ post = l @ 64 # d @ 46 # t @ post"
    by (simp add: m)
  have tw: "takeWhile local_char (m @ post) = l"
    unfolding s using l(2) not_local_at by (simp add: takeWhile_append2)
  have "match_domain (d @ 46 # t @ post) \<noteq> None"
    using d t by (rule match_domain_complete)
  then have "match_at_domain (drop (length l) (m @ post)) \<noteq> None"
    unfolding s by (simp add: match_at_domain_def)
  then have "map_option (\<lambda>q. length l + q) (match_at_domain (drop (length l) (m @ post))) \<noteq> None"
    by simp
  then show ?thesis
    unfolding match_email_def tw using l(1) by (intro try_down_top) simp_all
qed

lemma email_shape_not_Nil: "\<not> email_shape []"
  by (simp add: email_shape_def)

lemma search_None:
  "EMAIL_RX_search s = None \<Longrightarrow> s = pre @ m @ post \<Longrightarrow> \<not> email_shape m"
proof (induction s arbitrary: pre)
  case Nil
  then show ?case using email_shape_not_Nil by simp
next
  case (Cons c cs)
  have none: "match_email (c # cs) = None" and rest: "EMAIL_RX_search cs = None"
    using Cons.prems(1) by (simp_all split: option.splits)
  show ?case
  proof (cases pre)
    case Nil
    then have "c # cs = m @ post" using Cons.prems(2) by simp
    then show ?thesis using none match_email_complete[of m post] by auto
  next
    case (Cons a pre')
    then have "cs = pre' @ m @ post" using Cons.prems(2) by simp
    then show ?thesis using Cons.IH[OF rest] by blast
  qed
qed

lemma search_Some:
  "EMAIL_RX_search s = Some m \<Longrightarrow>
     \<exists>pre post. s = pre @ m @ post \<and> email_shape m
       \<and> (\<forall>pre' m' post'. s = pre' @ m' @ post' \<and> email_shape m'
             \<longrightarrow> length pre \<le> length pre')"
proof (induction s)
  case Nil
  then show ?case by simp
next
  case (Cons c cs)
  show ?case
  proof (cases "match_email (c # cs)")
    case (Some n)
    then have m: "m = take n (c # cs)" using Cons.prems by simp
    have "email_shape m"
      unfolding m using match_email_sound[OF Some] by simp
    moreover have "c # cs = [] @ m @ drop n (c # cs)"
      unfolding m by simp
    ultimately show ?thesis
      by (intro exI[of _ "[]"] exI[of _ "drop n (c # cs)"]) simp
  next
    case None
    then have "EMAIL_RX_search cs = Some m" using Cons.prems by simp
    from Cons.IH[OF this] obtain pre post where
      cs: "cs = pre @ m @ post" and sh: "email_shape m"
      and mn: "\<forall>pre' m' post'. cs = pre' @ m' @ post' \<and> email_shape m'
             \<longrightarrow> length pre \<le> length pre'"
      by blast
    have "\<forall>pre' m' post'. c # cs = pre' @ m' @ post' \<and> email_shape m'
             \<longrightarrow> length (c # pre) \<le> length pre'"
    proof (intro allI impI)
      fix pre' m' post'
      assume a: "c # cs = pre' @ m' @ post' \<and> email_shape m'"
      show "length (c # pre) \<le> length pre'"
      proof (cases pre')
        case Nil
        then have "c # cs = m' @ post'" using a by simp
        then show ?thesis using None match_email_complete[of m' post'] a by auto
      next
        case (Cons a' pre'')
        then have "cs = pre'' @ m' @ post'" using a by simp
        then have "length pre \<le> length pre''" using mn a by blast
        then show ?thesis using Cons by simp
      qed
    qed
    moreover have "c # cs = (c # pre) @ m @ post"
      using cs by simp
    ultimately show ?thesis
      using sh by blast
  qed
qed

section \<open>The claims on the search and the split\<close>

text \<open>The email of a row is the result of the search.\<close>

lemma email_shape_nonempty: "email_shape m \<Longrightarrow> m \<noteq> []"
  by (auto simp: email_shape_def)

lemma search_Some_nonempty: "EMAIL_RX_search s = Some m \<Longrightarrow> m \<noteq> []"
  using search_Some email_shape_nonempty by blast

lemma author_loop_email:
  assumes "i < length lines" "startswith (lines ! i) (u ''FAU -'')"
    "aff_loop lines (i + 1) = Inr e" "e \<noteq> []"
  shows "author_loop lines pmid title i records =
     author_loop lines pmid title (i + 1)
       (records @ [\<lparr>PMID = pmid, Title = title, Author = strip (drop 5 (lines ! i)),
                    Email = e\<rparr>])"
proof -
  have a: "after_dash (lines ! i) = Inr (strip (drop 5 (lines ! i)))"
    using assms(2) by (rule after_dash_FAU)
  have e: "aff_loop lines (Suc i) = Inr e"
    using assms(3) by simp
  show ?thesis
    using assms(1,2,4) by (subst author_loop.simps) (simp add: a e)
qed

lemma aff_loop_found:
  "aff_loop lines j = Inr e \<Longrightarrow> e \<noteq> [] \<Longrightarrow>
     \<exists>m. j \<le> m \<and> m < length lines \<and> startswith (lines ! m) (u ''AD  -'')
       \<and> (\<forall>t. j \<le> t \<and> t < m \<longrightarrow>
             \<not> startswith (lines ! t) (u ''AD  -'') \<and> \<not> startswith (lines ! t) (u ''FAU -''))
       \<and> EMAIL_RX_search (affiliation_text lines m) = Some e"
proof (induction lines j rule: aff_loop.induct)
  case (1 lines j)
  show ?case
  proof (cases "j < length lines")
    case False
    then have "aff_loop lines j = Inr []" by (simp add: aff_loop_end)
    then show ?thesis using "1.prems" by simp
  next
    case lt: True
    show ?thesis
    proof (cases "startswith (lines ! j) (u ''AD  -'')")
      case True
      then have "Inr e = (Inr (case EMAIL_RX_search (affiliation_text lines j) of
          Some m \<Rightarrow> m | None \<Rightarrow> []) :: error + pystr)"
        using aff_loop_AD[OF lt True] "1.prems"(1) by simp
      then have "EMAIL_RX_search (affiliation_text lines j) = Some e"
        using "1.prems"(2) by (cases "EMAIL_RX_search (affiliation_text lines j)") auto
      then show ?thesis
        using lt True by (intro exI[of _ j]) auto
    next
      case nad: False
      show ?thesis
      proof (cases "startswith (lines ! j) (u ''FAU -'')")
        case True
        then have "aff_loop lines j = Inr []" using lt nad by (simp add: aff_loop_FAU)
        then show ?thesis using "1.prems" by simp
      next
        case nfau: False
        have "aff_loop lines (j + 1) = Inr e"
          using aff_loop_step[OF lt nad nfau] "1.prems"(1) by simp
        from "1.IH"[OF lt nad nfau this "1.prems"(2)] obtain m where
          m: "j + 1 \<le> m" "m < length lines" "startswith (lines ! m) (u ''AD  -'')"
          "\<forall>t. j + 1 \<le> t \<and> t < m \<longrightarrow>
             \<not> startswith (lines ! t) (u ''AD  -'') \<and> \<not> startswith (lines ! t) (u ''FAU -'')"
          "EMAIL_RX_search (affiliation_text lines m) = Some e"
          by blast
        have "\<forall>t. j \<le> t \<and> t < m \<longrightarrow>
             \<not> startswith (lines ! t) (u ''AD  -'') \<and> \<not> startswith (lines ! t) (u ''FAU -'')"
        proof (intro allI impI)
          fix t
          assume t: "j \<le> t \<and> t < m"
          show "\<not> startswith (lines ! t) (u ''AD  -'') \<and> \<not> startswith (lines ! t) (u ''FAU -'')"
          proof (cases "t = j")
            case True
            then show ?thesis using nad nfau by simp
          next
            case False
            then have "j + 1 \<le> t \<and> t < m" using t by simp
            then show ?thesis using m(4) by blast
          qed
        qed
        then show ?thesis
          using m(1,2,3,5) by (intro exI[of _ m]) simp
      qed
    qed
  qed
qed

lemma text_rows_source:
  assumes "r \<in> set (text_rows text)"
  shows "\<exists>chunk\<in>set (re_split (strip text)). \<exists>k m.
      k < m \<and> m < length (splitlines chunk)
      \<and> startswith (splitlines chunk ! k) (u ''FAU -'')
      \<and> Author r = strip (drop 5 (splitlines chunk ! k))
      \<and> startswith (splitlines chunk ! m) (u ''AD  -'')
      \<and> (\<forall>t. k < t \<and> t < m \<longrightarrow>
             \<not> startswith (splitlines chunk ! t) (u ''AD  -'')
             \<and> \<not> startswith (splitlines chunk ! t) (u ''FAU -''))
      \<and> EMAIL_RX_search (affiliation_text (splitlines chunk) m) = Some (Email r)"
proof -
  obtain chunk where c: "chunk \<in> set (re_split (strip text))" and rc: "r \<in> set (chunk_rows chunk)"
    using assms by (auto simp: text_rows_def)
  define L where "L = splitlines chunk"
  obtain k where k: "k < length L"
    and rk: "r \<in> set (entry_rows (last_tag (u ''PMID-'') L) (last_tag (u ''TI  -'') L) L k)"
    using rc by (auto simp: chunk_rows_def Let_def L_def)
  from entry_rows_fields[OF rk]
  have f: "Email r \<noteq> []" "startswith (L ! k) (u ''FAU -'')"
    "aff_loop L (k + 1) = Inr (Email r)" "Author r = strip (drop 5 (L ! k))"
    by simp_all
  from aff_loop_found[OF f(3) f(1)] obtain m where
    m: "k + 1 \<le> m" "m < length L" "startswith (L ! m) (u ''AD  -'')"
    "\<forall>t. k + 1 \<le> t \<and> t < m \<longrightarrow>
       \<not> startswith (L ! t) (u ''AD  -'') \<and> \<not> startswith (L ! t) (u ''FAU -'')"
    "EMAIL_RX_search (affiliation_text L m) = Some (Email r)"
    by blast
  have "k < m \<and> m < length L \<and> startswith (L ! k) (u ''FAU -'')
      \<and> Author r = strip (drop 5 (L ! k)) \<and> startswith (L ! m) (u ''AD  -'')
      \<and> (\<forall>t. k < t \<and> t < m \<longrightarrow>
             \<not> startswith (L ! t) (u ''AD  -'') \<and> \<not> startswith (L ! t) (u ''FAU -''))
      \<and> EMAIL_RX_search (affiliation_text L m) = Some (Email r)"
    using m f by auto
  then show ?thesis
    using c unfolding L_def by blast
qed

text \<open>
  C6: the search returns a substring of the text that has the shape of the pattern
  and starts at the leftmost position where a substring of that shape starts; it
  returns \<open>None\<close> exactly when the text has no substring of that shape. The email of
  a row is the result of this one search on the affiliation text, so of two emails in
  one affiliation text the left one is used: an author line whose first \<open>AD\<close> line
  has a match adds the row with that match as its email, and the email of every row
  the parser returns is the result of the search on the affiliation block of the first
  \<open>AD\<close> line after the row's author line.
\<close>

theorem EMAIL_RX_search_leftmost:
  "(EMAIL_RX_search s = None \<longleftrightarrow> \<not> (\<exists>pre m post. s = pre @ m @ post \<and> email_shape m))
   \<and> (EMAIL_RX_search s = Some m \<longrightarrow>
        (\<exists>pre post. s = pre @ m @ post \<and> email_shape m
           \<and> (\<forall>pre' m' post'. s = pre' @ m' @ post' \<and> email_shape m'
                 \<longrightarrow> length pre \<le> length pre')))
   \<and> (j < length lines \<and> startswith (lines ! j) (u ''AD  -'') \<longrightarrow>
        aff_loop lines j =
          Inr (case EMAIL_RX_search (affiliation_text lines j) of Some m \<Rightarrow> m | None \<Rightarrow> []))
   \<and> (i < n \<and> n < length lines \<and> startswith (lines ! i) (u ''FAU -'')
        \<and> (\<forall>t. i < t \<and> t < n \<longrightarrow>
              \<not> startswith (lines ! t) (u ''AD  -'')
              \<and> \<not> startswith (lines ! t) (u ''FAU -''))
        \<and> startswith (lines ! n) (u ''AD  -'')
        \<and> EMAIL_RX_search (affiliation_text lines n) = Some e
      \<longrightarrow> author_loop lines pmid title i records =
            author_loop lines pmid title (i + 1)
              (records @ [\<lparr>PMID = pmid, Title = title,
                            Author = strip (drop 5 (lines ! i)), Email = e\<rparr>]))
   \<and> (parse_medline_text raw_text = Inr rows \<longrightarrow>
        (\<forall>r\<in>set rows. \<exists>chunk\<in>set (re_split (strip raw_text)). \<exists>k n.
           k < n \<and> n < length (splitlines chunk)
           \<and> startswith (splitlines chunk ! k) (u ''FAU -'')
           \<and> Author r = strip (drop 5 (splitlines chunk ! k))
           \<and> startswith (splitlines chunk ! n) (u ''AD  -'')
           \<and> (\<forall>t. k < t \<and> t < n \<longrightarrow>
                 \<not> startswith (splitlines chunk ! t) (u ''AD  -'')
                 \<and> \<not> startswith (splitlines chunk ! t) (u ''FAU -''))
           \<and> EMAIL_RX_search (affiliation_text (splitlines chunk) n) = Some (Email r)))"
proof (intro conjI impI)
  show "EMAIL_RX_search s = None \<longleftrightarrow> \<not> (\<exists>pre m post. s = pre @ m @ post \<and> email_shape m)"
  proof
    assume "EMAIL_RX_search s = None"
    then show "\<not> (\<exists>pre m post. s = pre @ m @ post \<and> email_shape m)"
      using search_None by blast
  next
    assume no: "\<not> (\<exists>pre m post. s = pre @ m @ post \<and> email_shape m)"
    show "EMAIL_RX_search s = None"
    proof (cases "EMAIL_RX_search s")
      case None
      then show ?thesis .
    next
      case (Some m0)
      then show ?thesis using search_Some[OF Some] no by blast
    qed
  qed
next
  assume "EMAIL_RX_search s = Some m"
  then show "\<exists>pre post. s = pre @ m @ post \<and> email_shape m
           \<and> (\<forall>pre' m' post'. s = pre' @ m' @ post' \<and> email_shape m'
                 \<longrightarrow> length pre \<le> length pre')"
    by (rule search_Some)
next
  assume "j < length lines \<and> startswith (lines ! j) (u ''AD  -'')"
  then show "aff_loop lines j =
          Inr (case EMAIL_RX_search (affiliation_text lines j) of Some m \<Rightarrow> m | None \<Rightarrow> [])"
    using aff_loop_AD by blast
next
  assume a: "i < n \<and> n < length lines \<and> startswith (lines ! i) (u ''FAU -'')
        \<and> (\<forall>t. i < t \<and> t < n \<longrightarrow>
              \<not> startswith (lines ! t) (u ''AD  -'')
              \<and> \<not> startswith (lines ! t) (u ''FAU -''))
        \<and> startswith (lines ! n) (u ''AD  -'')
        \<and> EMAIL_RX_search (affiliation_text lines n) = Some e"
  have "aff_loop lines (i + 1) = aff_loop lines n"
    using a by (intro aff_loop_skip) auto
  also have "\<dots> = Inr e"
    using a by (simp add: aff_loop_AD)
  finally have f: "aff_loop lines (i + 1) = Inr e" .
  have ne: "e \<noteq> []"
    using a search_Some_nonempty by blast
  have "i < length lines" using a by simp
  then show "author_loop lines pmid title i records =
            author_loop lines pmid title (i + 1)
              (records @ [\<lparr>PMID = pmid, Title = title,
                            Author = strip (drop 5 (lines ! i)), Email = e\<rparr>])"
    using a f ne by (intro author_loop_email) auto
next
  assume "parse_medline_text raw_text = Inr rows"
  then have "rows = text_rows raw_text"
    by (simp add: parse_rows)
  then show "\<forall>r\<in>set rows. \<exists>chunk\<in>set (re_split (strip raw_text)). \<exists>k n.
           k < n \<and> n < length (splitlines chunk)
           \<and> startswith (splitlines chunk ! k) (u ''FAU -'')
           \<and> Author r = strip (drop 5 (splitlines chunk ! k))
           \<and> startswith (splitlines chunk ! n) (u ''AD  -'')
           \<and> (\<forall>t. k < t \<and> t < n \<longrightarrow>
                 \<not> startswith (splitlines chunk ! t) (u ''AD  -'')
                 \<and> \<not> startswith (splitlines chunk ! t) (u ''FAU -''))
           \<and> EMAIL_RX_search (affiliation_text (splitlines chunk) n) = Some (Email r)"
    using text_rows_source by blast
qed

theorem EMAIL_RX_search_leftmost_witness:
  "EMAIL_RX_search (u ''Dept of Y. adoe@uni.edu and roe@x.org'') = Some (u ''adoe@uni.edu'')
   \<and> (\<exists>pre post. u ''Dept of Y. adoe@uni.edu and roe@x.org'' = pre @ u ''adoe@uni.edu'' @ post)
   \<and> aff_loop [u ''FAU - Doe A'', u ''AD  - Dept of Y. adoe@uni.edu and roe@x.org''] 1
       = Inr (u ''adoe@uni.edu'')
   \<and> author_loop [u ''FAU - Doe A'', u ''AD  - Dept of Y. adoe@uni.edu and roe@x.org'']
        None None 0 []
     = author_loop [u ''FAU - Doe A'', u ''AD  - Dept of Y. adoe@uni.edu and roe@x.org'']
        None None (0 + 1)
        ([] @ [\<lparr>PMID = None, Title = None, Author = u ''Doe A'',
                 Email = u ''adoe@uni.edu''\<rparr>])
   \<and> parse_medline_text
        (u ''PMID- 1\<newline>FAU - Doe A\<newline>AD  - Dept of Y. adoe@uni.edu and roe@x.org'')
     = Inr [\<lparr>PMID = Some (u ''1''), Title = None, Author = u ''Doe A'',
             Email = u ''adoe@uni.edu''\<rparr>]
   \<and> (\<exists>chunk n. EMAIL_RX_search (affiliation_text (splitlines chunk) n)
                  = Some (u ''adoe@uni.edu''))"
proof -
  define S where "S = u ''Dept of Y. adoe@uni.edu and roe@x.org''"
  define E where "E = u ''adoe@uni.edu''"
  define L where
    "L = [u ''FAU - Doe A'', u ''AD  - Dept of Y. adoe@uni.edu and roe@x.org'']"
  define F where
    "F = u ''PMID- 1\<newline>FAU - Doe A\<newline>AD  - Dept of Y. adoe@uni.edu and roe@x.org''"
  define r0 where
    "r0 = \<lparr>PMID = Some (u ''1''), Title = None, Author = u ''Doe A'', Email = E\<rparr>"
  have ev: "EMAIL_RX_search S = Some E"
    unfolding S_def E_def by (simp add: eval_defs)
  have t: "affiliation_text L 1 = S"
    by (simp add: L_def S_def affiliation_text_def startswith_def u_def strip_def isspace_def)
  have hC: "1 < length L \<and> startswith (L ! 1) (u ''AD  -'')"
    by (simp add: L_def startswith_def u_def)
  have hD: "(0::nat) < 1 \<and> 1 < length L \<and> startswith (L ! 0) (u ''FAU -'')
        \<and> (\<forall>t. 0 < t \<and> t < 1 \<longrightarrow>
              \<not> startswith (L ! t) (u ''AD  -'') \<and> \<not> startswith (L ! t) (u ''FAU -''))
        \<and> startswith (L ! 1) (u ''AD  -'')
        \<and> EMAIL_RX_search (affiliation_text L 1) = Some E"
    unfolding t using ev by (auto simp: L_def startswith_def u_def)
  have p: "parse_medline_text F = Inr [r0]"
    unfolding F_def r0_def E_def by (simp add: eval_defs)
  note inst = EMAIL_RX_search_leftmost[where s = S and m = E and j = 1 and lines = L
      and i = 0 and n = 1 and e = E and pmid = None and title = None and records = "[]"
      and raw_text = F and rows = "[r0]"]
  note cB = inst[THEN conjunct2, THEN conjunct1, THEN mp, OF ev]
  note cC = inst[THEN conjunct2, THEN conjunct2, THEN conjunct1, THEN mp, OF hC]
  note cD = inst[THEN conjunct2, THEN conjunct2, THEN conjunct2, THEN conjunct1, THEN mp, OF hD]
  note cE = inst[THEN conjunct2, THEN conjunct2, THEN conjunct2, THEN conjunct2, THEN mp, OF p]
  have ex: "\<exists>pre post. S = pre @ E @ post"
    using cB by blast
  have a: "aff_loop L 1 = Inr E"
    using cC unfolding t ev by simp
  have au: "strip (drop 5 (L ! 0)) = u ''Doe A''"
    by (simp add: L_def u_def strip_def isspace_def)
  have st: "author_loop L None None 0 [] =
      author_loop L None None (0 + 1)
        ([] @ [\<lparr>PMID = None, Title = None, Author = u ''Doe A'', Email = E\<rparr>])"
    using cD unfolding au .
  have "r0 \<in> set [r0]" by simp
  from bspec[OF cE this]
  have "\<exists>chunk n. EMAIL_RX_search (affiliation_text (splitlines chunk) n) = Some (Email r0)"
    by blast
  then have src: "\<exists>chunk n. EMAIL_RX_search (affiliation_text (splitlines chunk) n) = Some E"
    by (simp add: r0_def)
  from ev ex a st p src show ?thesis
    unfolding S_def E_def L_def F_def r0_def by simp
qed

text \<open>
  C8: the chunks of the parser are the pieces of the stripped text between the
  newlines that are directly followed by \<open>PMID-\<close> and one whitespace character. Joined
  by newlines the chunks give the stripped text back; there is one more chunk than
  such newlines; and every chunk but the first starts directly after such a newline.
  So \<open>PMID-\<close> inside a line starts no chunk.
\<close>

theorem re_split_line_anchored:
  "parse_medline_text text = chunk_loop (re_split (strip text)) []
   \<and> join_newline (re_split (strip text)) = strip text
   \<and> length (re_split (strip text)) = Suc (length (mark_positions (strip text)))
   \<and> (0 < k \<and> k < length (re_split (strip text)) \<longrightarrow>
        strip text = join_newline (take k (re_split (strip text)))
                       @ 10 # join_newline (drop k (re_split (strip text)))
        \<and> record_mark (join_newline (drop k (re_split (strip text)))))"
proof (intro conjI impI)
  show "parse_medline_text text = chunk_loop (re_split (strip text)) []"
    by (simp add: parse_medline_text_def)
  show "join_newline (re_split (strip text)) = strip text"
    by (rule join_newline_re_split)
  show "length (re_split (strip text)) = Suc (length (mark_positions (strip text)))"
    by (rule length_re_split)
next
  assume k: "0 < k \<and> k < length (re_split (strip text))"
  let ?cs = "re_split (strip text)"
  have "take k ?cs \<noteq> []" "drop k ?cs \<noteq> []"
    using k by auto
  then have "join_newline (take k ?cs @ drop k ?cs)
      = join_newline (take k ?cs) @ 10 # join_newline (drop k ?cs)"
    by (rule join_newline_append)
  then show "strip text = join_newline (take k ?cs) @ 10 # join_newline (drop k ?cs)"
    by (simp add: join_newline_re_split)
next
  assume "0 < k \<and> k < length (re_split (strip text))"
  then show "record_mark (join_newline (drop k (re_split (strip text))))"
    using re_split_tail_marks by blast
qed

theorem re_split_line_anchored_witness:
  "re_split (strip (u '' PMID- 1\<newline>TI  - see PMID- 2\<newline>PMID- 3\<newline>''))
     = [u ''PMID- 1\<newline>TI  - see PMID- 2'', u ''PMID- 3'']
   \<and> length (mark_positions (strip (u '' PMID- 1\<newline>TI  - see PMID- 2\<newline>PMID- 3\<newline>''))) = 1
   \<and> record_mark (u ''PMID- 3'')"
proof -
  define T where "T = u '' PMID- 1\<newline>TI  - see PMID- 2\<newline>PMID- 3\<newline>''"
  have ev: "re_split (strip T) = [u ''PMID- 1\<newline>TI  - see PMID- 2'', u ''PMID- 3'']"
    unfolding T_def by (simp add: eval_defs)
  note inst = re_split_line_anchored[of T 1]
  have "length (re_split (strip T)) = Suc (length (mark_positions (strip T)))"
    using inst by blast
  then have n: "length (mark_positions (strip T)) = 1"
    by (simp add: ev)
  have h: "0 < (1::nat) \<and> 1 < length (re_split (strip T))"
    by (simp add: ev)
  have "record_mark (join_newline (drop 1 (re_split (strip T))))"
    using inst h by blast
  then have "record_mark (u ''PMID- 3'')"
    by (simp add: ev)
  then show ?thesis
    using ev n unfolding T_def by simp
qed

end
